theory Spec2Isabelle
  imports Main "HOL-Library.Char_ord" "HOL-Library.List_Lexorder"
begin

section \<open>Characters used by the format\<close>

definition dquote :: char where
  "dquote = CHR 0x22"

definition backslash :: char where
  "backslash = CHR 0x5C"

definition newline :: char where
  "newline = CHR 0x0A"

definition carriage_return :: char where
  "carriage_return = CHR 0x0D"

definition tab :: char where
  "tab = CHR 0x09"

section \<open>Escaper (tjson.cpp, lines 16-61)\<close>

text \<open>
  \<^verbatim>\<open>escape\<close> emits an opening quote, then every character of the input, preceded by a
  backslash when it is a quote or a backslash, then a closing quote.
\<close>

fun escape_loop :: "string \<Rightarrow> string" where
  "escape_loop [] = []"
| "escape_loop (c # cs) =
     (if c = dquote \<or> c = backslash then backslash # c # escape_loop cs
      else c # escape_loop cs)"

definition escape :: "string \<Rightarrow> string" where
  "escape s = dquote # escape_loop s @ [dquote]"

text \<open>
  The loop of \<^verbatim>\<open>unescape\<close> (lines 47-55): the flag \<^verbatim>\<open>in_escape\<close> and the buffer
  \<^verbatim>\<open>wip\<close> are the loop state, the last argument is what is left between
  \<^verbatim>\<open>itr\<close> and \<^verbatim>\<open>end\<close>.
\<close>

fun unescape_loop :: "bool \<Rightarrow> string \<Rightarrow> string \<Rightarrow> bool \<times> string" where
  "unescape_loop in_escape wip [] = (in_escape, wip)"
| "unescape_loop in_escape wip (c # cs) =
     (if \<not> in_escape \<and> c = backslash then unescape_loop True wip cs
      else unescape_loop False (wip @ [c]) cs)"

text \<open>
  \<^verbatim>\<open>unescape\<close> returns \<^verbatim>\<open>false\<close> (here \<open>None\<close>) and leaves \<^verbatim>\<open>*out\<close> alone, or returns
  \<^verbatim>\<open>true\<close> and stores the buffer (here \<open>Some wip\<close>).
\<close>

definition unescape :: "string \<Rightarrow> string option" where
  "unescape s =
     (if length s < 2 then None
      else if s ! 0 \<noteq> dquote \<or> s ! (length s - 1) \<noteq> dquote then None
      else (case unescape_loop False [] (take (length s - 2) (drop 1 s)) of
              (in_escape, wip) \<Rightarrow> if in_escape then None else Some wip))"

text \<open>
  The specification's wording of unescaping, for comparison with the loop above: one
  backslash is removed before each escaped character, the character after a backslash
  is taken literally, and a backslash with nothing after it is a failure.
\<close>

fun strip_escapes :: "string \<Rightarrow> string option" where
  "strip_escapes [] = Some []"
| "strip_escapes [c] = (if c = backslash then None else Some [c])"
| "strip_escapes (c # d # ds) =
     (if c = backslash then map_option ((#) d) (strip_escapes ds)
      else map_option ((#) c) (strip_escapes (d # ds)))"

text \<open>The body ends mid-escape: its trailing run of backslashes has odd length.\<close>

definition dangling_backslash :: "string \<Rightarrow> bool" where
  "dangling_backslash body = odd (length (takeWhile (\<lambda>c. c = backslash) (rev body)))"

section \<open>Node model (class Val)\<close>

text \<open>
  The class \<^verbatim>\<open>Val\<close> is declared in \<^verbatim>\<open>tjson.h\<close>; \<^verbatim>\<open>Val::reset\<close> (lines 368-378)
  shows its five data members \<^verbatim>\<open>dict_\<close>, \<^verbatim>\<open>is_dict_\<close>, \<^verbatim>\<open>list_\<close>, \<^verbatim>\<open>is_list_\<close> and
  \<^verbatim>\<open>val_\<close>. Children are owned through \<^verbatim>\<open>std::unique_ptr\<close>, so a node is a tree and is
  modelled by value. Isabelle names cannot end in an underscore: the members carry the
  suffix \<open>fld\<close>.
\<close>

text \<open>
  Modelled from the spec: the container type of \<^verbatim>\<open>dict_\<close> is declared in \<^verbatim>\<open>tjson.h\<close>.
  Section 3 describes it as a ``mapping from string key to an exclusively-owned child
  Node, iteration order undefined-but-deterministic (an ordered associative structure is
  acceptable)''. It is an association list kept in strictly increasing key order with
  one entry per key, the iteration order of a key-ordered map. The other four members
  are as \<^verbatim>\<open>Val::reset\<close> uses them: a vector of children, two flags and a string.
\<close>

datatype Val = Val (dict_fld: "(string \<times> Val) list") (is_dict_fld: bool)
                   (list_fld: "Val list") (is_list_fld: bool) (val_fld: string)

text \<open>
  Modelled from the spec: the constructor of \<^verbatim>\<open>Val\<close> is in \<^verbatim>\<open>tjson.h\<close>. Section 3 calls
  a default-constructed node an ``empty-scalar'' node: no entries, no elements, empty
  text, neither flag set. \<^verbatim>\<open>Val::INVALID\<close> (line 12) is default-constructed.
\<close>

definition new_Val :: Val where
  "new_Val = Val [] False [] False []"

definition INVALID :: Val where
  "INVALID = new_Val"

text \<open>
  Modelled from the spec: on the key-ordered map of section 3, \<^verbatim>\<open>dict_[x] = v\<close> overwrites
  the entry of \<open>x\<close> or inserts it in key order (strings compare as \<^verbatim>\<open>std::string\<close> does,
  character by character as unsigned values, a proper prefix first).
\<close>

fun map_put :: "string \<Rightarrow> 'v \<Rightarrow> (string \<times> 'v) list \<Rightarrow> (string \<times> 'v) list" where
  "map_put k v [] = [(k, v)]"
| "map_put k v ((k', v') # rest) =
     (if k < k' then (k, v) # (k', v') # rest
      else if k = k' then (k, v) # rest
      else (k', v') # map_put k v rest)"

text \<open>
  Modelled from the spec: \<^verbatim>\<open>dict_.find(x)\<close> on that map; \<open>None\<close> stands for \<^verbatim>\<open>dict_.end()\<close>.
\<close>

definition map_find :: "string \<Rightarrow> (string \<times> 'v) list \<Rightarrow> 'v option" where
  "map_find k d = map_of d k"

text \<open>\<^verbatim>\<open>Val::reset\<close> (lines 368-378).\<close>

definition reset :: "Val \<Rightarrow> Val" where
  "reset v = Val [] False [] False []"

text \<open>
  Modelled from the spec: \<^verbatim>\<open>set_dict\<close> and \<^verbatim>\<open>set_list\<close> are defined in \<^verbatim>\<open>tjson.h\<close>.
  Section 4.4: the mutating access ``promotes the Node to Object/Array mode if it was
  not already''; section 3: ``Switching a Node into Object or Array mode (via key or
  index access) must clear any prior content of the other variants''. A node already in
  the mode is left alone (the parser calls \<^verbatim>\<open>set_dict\<close> again for every entry it
  stores); otherwise the node is reset and the flag is set.
\<close>

definition set_dict :: "Val \<Rightarrow> Val" where
  "set_dict v =
     (if is_dict_fld v then v
      else Val (dict_fld (reset v)) True (list_fld (reset v)) (is_list_fld (reset v))
             (val_fld (reset v)))"

definition set_list :: "Val \<Rightarrow> Val" where
  "set_list v =
     (if is_list_fld v then v
      else Val (dict_fld (reset v)) (is_dict_fld (reset v)) (list_fld (reset v)) True
             (val_fld (reset v)))"

text \<open>
  Modelled from the spec: the mutable accessor \<^verbatim>\<open>val()\<close> is defined in \<^verbatim>\<open>tjson.h\<close>; the
  parser assigns through it on a freshly constructed node (line 277). Section 3: a
  Scalar holds ``a raw text payload''. The assignment stores the text in \<^verbatim>\<open>val_\<close>.
\<close>

definition val_assign :: "Val \<Rightarrow> string \<Rightarrow> Val" where
  "val_assign v s = Val (dict_fld v) (is_dict_fld v) (list_fld v) (is_list_fld v) s"

text \<open>
  The read-only accessors (lines 382-389 and 402-408) return a \<^verbatim>\<open>const Val&\<close>. A \<open>Ref\<close>
  says what such a reference refers to: the static object \<^verbatim>\<open>Val::INVALID\<close> of line 12, or
  a child owned by the node. \<open>referent\<close> is the node behind the reference.
\<close>

datatype Ref = Sentinel | Child Val

fun referent :: "Ref \<Rightarrow> Val" where
  "referent Sentinel = INVALID"
| "referent (Child c) = c"

text \<open>
  The accessors as calls on a node: the pair of the returned reference and the node as
  it is when the call returns. The bodies look the key up with \<^verbatim>\<open>dict_.find\<close>, or compare
  the index with \<^verbatim>\<open>list_.size()\<close>, and return; no statement of them assigns to a member or
  calls \<^verbatim>\<open>set_dict\<close>, \<^verbatim>\<open>set_list\<close> or \<^verbatim>\<open>dict_[x]\<close>.
\<close>

definition key_read :: "Val \<Rightarrow> string \<Rightarrow> Ref \<times> Val" where
  "key_read v x = (case map_find x (dict_fld v) of None \<Rightarrow> (Sentinel, v) | Some c \<Rightarrow> (Child c, v))"

definition idx_read :: "Val \<Rightarrow> nat \<Rightarrow> Ref \<times> Val" where
  "idx_read v i = (if i \<ge> length (list_fld v) then (Sentinel, v) else (Child (list_fld v ! i), v))"

text \<open>
  The node that a read-only access yields, for the places where only that node matters.
\<close>

definition key_get :: "Val \<Rightarrow> string \<Rightarrow> Val" where
  "key_get v x = (case map_find x (dict_fld v) of None \<Rightarrow> INVALID | Some c \<Rightarrow> c)"

definition idx_get :: "Val \<Rightarrow> nat \<Rightarrow> Val" where
  "idx_get v i = (if i \<ge> length (list_fld v) then INVALID else list_fld v ! i)"

text \<open>
  The mutating key accessor (lines 391-398) returns a reference to the slot of \<open>x\<close>.
  \<open>key_slot_in\<close> is the body after the call of \<^verbatim>\<open>set_dict\<close>: \<^verbatim>\<open>dict_[x]\<close> finds or creates
  the slot and \<^verbatim>\<open>val.reset(new Val)\<close> puts a fresh node into it. \<open>key_slot\<close> is the whole
  accessor; the returned reference is the slot of \<open>x\<close> in the resulting node, and
  \<open>key_store\<close> is an assignment through that reference.
\<close>

definition key_slot_in :: "Val \<Rightarrow> string \<Rightarrow> Val" where
  "key_slot_in v x =
     Val (map_put x new_Val (dict_fld v)) (is_dict_fld v) (list_fld v) (is_list_fld v)
       (val_fld v)"

definition key_slot :: "Val \<Rightarrow> string \<Rightarrow> Val" where
  "key_slot v x = key_slot_in (set_dict v) x"

definition key_store :: "Val \<Rightarrow> string \<Rightarrow> Val \<Rightarrow> Val" where
  "key_store v x c =
     Val (map_put x c (dict_fld v)) (is_dict_fld v) (list_fld v) (is_list_fld v) (val_fld v)"

text \<open>
  The mutating index accessor (lines 410-418): after \<^verbatim>\<open>set_list\<close>, the loop pushes
  fresh nodes while \<^verbatim>\<open>i >= list_.size()\<close>, and the slot \<open>i\<close> is returned by reference.
  \<^verbatim>\<open>size_t\<close> indices are natural numbers here.
\<close>

function grow_loop :: "Val list \<Rightarrow> nat \<Rightarrow> Val list" where
  "grow_loop l i = (if i \<ge> length l then grow_loop (l @ [new_Val]) i else l)"
  by pat_completeness auto
termination
  by (relation "measure (\<lambda>(l, i). Suc i - length l)") auto

declare grow_loop.simps [simp del]

definition idx_slot :: "Val \<Rightarrow> nat \<Rightarrow> Val" where
  "idx_slot v i =
     (let v1 = set_list v in
      Val (dict_fld v1) (is_dict_fld v1) (grow_loop (list_fld v1) i) (is_list_fld v1)
        (val_fld v1))"

definition idx_store :: "Val \<Rightarrow> nat \<Rightarrow> Val \<Rightarrow> Val" where
  "idx_store v i c =
     Val (dict_fld v) (is_dict_fld v) ((list_fld v)[i := c]) (is_list_fld v) (val_fld v)"

section \<open>Tokenizer (lines 65-155)\<close>

text \<open>
  A \<^verbatim>\<open>Token\<close> points into the input with \<^verbatim>\<open>begin\<close> and \<^verbatim>\<open>end\<close>; \<open>span\<close> is the text
  between the two pointers, which is all the code reads through them. The line and
  column counters are \<^verbatim>\<open>uint64_t\<close>; they count characters of the input and are natural
  numbers here.
\<close>

datatype Type = MALFORMED | WHITESPACE | STRING | WORD | SYMBOL

record Token =
  span :: string
  line_num :: nat
  line_pos :: nat
  type :: Type

text \<open>\<^verbatim>\<open>Token::str\<close> and \<^verbatim>\<open>Token::operator==\<close> (lines 81-88).\<close>

definition str :: "Token \<Rightarrow> string" where
  "str t = span t"

definition tok_eq :: "Token \<Rightarrow> string \<Rightarrow> bool" where
  "tok_eq t r = (if length r \<noteq> length (span t) then False else span t = r)"

text \<open>
  The four regular expressions (lines 91-94) are searched with \<^verbatim>\<open>match_continuous\<close>,
  so a match starts at the first character; each function returns the length of the
  match (\<^verbatim>\<open>res.length()\<close>) or \<open>None\<close>.
  \<^item> \<^verbatim>\<open>RE_WHITESPACE\<close>, \<^verbatim>\<open>[ \t\n\r]+\<close>, and \<^verbatim>\<open>RE_WORD\<close>, \<^verbatim>\<open>[A-Za-z0-9_+\-.]+\<close>: the greedy
    quantifier takes the longest run of characters of the class, at least one.
  \<^item> \<^verbatim>\<open>RE_SYMBOL\<close>: one of the six characters \<^verbatim>\<open>{ : , } [ ]\<close>.
  \<^item> \<^verbatim>\<open>RE_STRING\<close>, \<^verbatim>\<open>"(:?[^"\\]*(:?\\.)*)*"\<close>: an opening quote, then any sequence of
    characters other than quote and backslash and of pairs of a backslash and one more
    character, then a closing quote. (\<^verbatim>\<open>:?\<close> is an optional colon, which the character
    class matches as well.) The dot of ECMAScript does not match a line terminator.
    The match is unique: a quote that is not the second half of a pair ends it.
\<close>

definition is_ws_char :: "char \<Rightarrow> bool" where
  "is_ws_char c = (c = CHR '' '' \<or> c = tab \<or> c = newline \<or> c = carriage_return)"

definition is_word_char :: "char \<Rightarrow> bool" where
  "is_word_char c =
     ((CHR ''A'' \<le> c \<and> c \<le> CHR ''Z'') \<or> (CHR ''a'' \<le> c \<and> c \<le> CHR ''z'')
      \<or> (CHR ''0'' \<le> c \<and> c \<le> CHR ''9'')
      \<or> c = CHR ''_'' \<or> c = CHR ''+'' \<or> c = CHR ''-'' \<or> c = CHR ''.'')"

definition is_symbol_char :: "char \<Rightarrow> bool" where
  "is_symbol_char c =
     (c = CHR ''{'' \<or> c = CHR '':'' \<or> c = CHR '','' \<or> c = CHR ''}''
      \<or> c = CHR ''['' \<or> c = CHR '']'')"

definition RE_WHITESPACE :: "string \<Rightarrow> nat option" where
  "RE_WHITESPACE s = (let n = length (takeWhile is_ws_char s) in if n = 0 then None else Some n)"

fun string_body :: "string \<Rightarrow> nat option" where
  "string_body [] = None"
| "string_body [c] = (if c = dquote then Some 1 else None)"
| "string_body (c # d # ds) =
     (if c = dquote then Some 1
      else if c = backslash then
        (if d = newline \<or> d = carriage_return then None
         else map_option (\<lambda>n. n + 2) (string_body ds))
      else map_option Suc (string_body (d # ds)))"

definition RE_STRING :: "string \<Rightarrow> nat option" where
  "RE_STRING s = (case s of [] \<Rightarrow> None
                  | c # cs \<Rightarrow> if c = dquote then map_option Suc (string_body cs) else None)"

definition RE_WORD :: "string \<Rightarrow> nat option" where
  "RE_WORD s = (let n = length (takeWhile is_word_char s) in if n = 0 then None else Some n)"

definition RE_SYMBOL :: "string \<Rightarrow> nat option" where
  "RE_SYMBOL s = (case s of [] \<Rightarrow> None | c # cs \<Rightarrow> if is_symbol_char c then Some 1 else None)"

text \<open>\<^verbatim>\<open>next_token_from_regex\<close> (lines 96-107): on a match \<^verbatim>\<open>out->end\<close> moves to its end.\<close>

definition next_token_from_regex :: "(string \<Rightarrow> nat option) \<Rightarrow> Token \<Rightarrow> Token option" where
  "next_token_from_regex regex out =
     (case regex (span out) of None \<Rightarrow> None
      | Some n \<Rightarrow> Some (out\<lparr>span := take n (span out)\<rparr>))"

text \<open>
  \<^verbatim>\<open>TokenGen\<close> holds \<^verbatim>\<open>meta_token_\<close>: the text that is left (\<^verbatim>\<open>begin\<close> to the end of the
  input) and the position of its first character. The type of \<^verbatim>\<open>meta_token_\<close> is
  \<^verbatim>\<open>MALFORMED\<close> from the constructor on and is never assigned. Copying a generator
  (the look-ahead snapshot of the parser) is copying this value.
\<close>

record TokenGen =
  rest :: string
  gen_line_num :: nat
  gen_line_pos :: nat

definition meta_token :: "TokenGen \<Rightarrow> Token" where
  "meta_token g = \<lparr>span = rest g, line_num = gen_line_num g, line_pos = gen_line_pos g,
                   type = MALFORMED\<rparr>"

definition TokenGen_init :: "string \<Rightarrow> TokenGen" where
  "TokenGen_init s = \<lparr>rest = s, gen_line_num = 1, gen_line_pos = 1\<rparr>"

text \<open>The loop of lines 131-137 over the characters of the returned token.\<close>

fun advance :: "string \<Rightarrow> nat \<times> nat \<Rightarrow> nat \<times> nat" where
  "advance [] (ln, lp) = (ln, lp)"
| "advance (c # cs) (ln, lp) =
     (if c = newline then advance cs (ln + 1, 0 + 1) else advance cs (ln, lp + 1))"

text \<open>
  \<^verbatim>\<open>TokenGen::Next\<close> (lines 118-139). When no expression matches, \<^verbatim>\<open>ret\<close> is the copy of
  \<^verbatim>\<open>meta_token_\<close>: a \<^verbatim>\<open>MALFORMED\<close> token that spans all the text that is left.
\<close>

definition Next :: "TokenGen \<Rightarrow> Token \<times> TokenGen" where
  "Next g =
     (let ret0 = meta_token g;
          ret = (case next_token_from_regex RE_WHITESPACE ret0 of
                   Some r \<Rightarrow> r\<lparr>type := WHITESPACE\<rparr>
                 | None \<Rightarrow>
                (case next_token_from_regex RE_STRING ret0 of
                   Some r \<Rightarrow> r\<lparr>type := STRING\<rparr>
                 | None \<Rightarrow>
                (case next_token_from_regex RE_WORD ret0 of
                   Some r \<Rightarrow> r\<lparr>type := WORD\<rparr>
                 | None \<Rightarrow>
                (case next_token_from_regex RE_SYMBOL ret0 of
                   Some r \<Rightarrow> r\<lparr>type := SYMBOL\<rparr>
                 | None \<Rightarrow> ret0))));
          pos = advance (span ret) (gen_line_num g, gen_line_pos g)
      in (ret, \<lparr>rest = drop (length (span ret)) (rest g),
                gen_line_num = fst pos, gen_line_pos = snd pos\<rparr>))"

lemma string_body_le: "string_body s = Some n \<Longrightarrow> 0 < n \<and> n \<le> length s"
  by (induction s arbitrary: n rule: string_body.induct) (auto split: if_splits)

lemma regex_bounds:
  "RE_WHITESPACE s = Some n \<Longrightarrow> 0 < n \<and> n \<le> length s"
  "RE_STRING s = Some n \<Longrightarrow> 0 < n \<and> n \<le> length s"
  "RE_WORD s = Some n \<Longrightarrow> 0 < n \<and> n \<le> length s"
  "RE_SYMBOL s = Some n \<Longrightarrow> 0 < n \<and> n \<le> length s"
  using string_body_le
  by (auto simp: RE_WHITESPACE_def RE_STRING_def RE_WORD_def RE_SYMBOL_def Let_def
      length_takeWhile_le split: if_splits list.splits)

lemma Next_split: "Next g = (t, g') \<Longrightarrow> rest g = span t @ rest g'"
  by (auto simp: Next_def Let_def next_token_from_regex_def meta_token_def min_absorb2
      split: option.splits dest: regex_bounds)

lemma Next_whitespace_progress:
  "Next g = (t, g') \<Longrightarrow> type t = WHITESPACE \<Longrightarrow> length (rest g') < length (rest g)"
  by (auto simp: Next_def Let_def next_token_from_regex_def meta_token_def
      split: option.splits dest: regex_bounds)

text \<open>\<^verbatim>\<open>TokenGen::NextNonWS\<close> (lines 141-154): the loop ends since whitespace is consumed.\<close>

function NextNonWS :: "TokenGen \<Rightarrow> Token \<times> TokenGen" where
  "NextNonWS g = (let (ret, g') = Next g in
                   if type ret \<noteq> WHITESPACE then (ret, g') else NextNonWS g')"
  by pat_completeness auto
termination
  by (relation "measure (\<lambda>g. length (rest g))") (auto intro: Next_whitespace_progress [OF sym])


declare NextNonWS.simps [simp del]

lemma NextNonWS_le:
  "NextNonWS g = (t, g') \<Longrightarrow> length (span t) + length (rest g') \<le> length (rest g)"
proof (induction g arbitrary: t g' rule: NextNonWS.induct)
  case (1 g)
  obtain r g1 where n: "Next g = (r, g1)" by (cases "Next g")
  show ?case
  proof (cases "type r = WHITESPACE")
    case True
    then have "NextNonWS g1 = (t, g')"
      using "1.prems" n by (simp add: NextNonWS.simps [of g])
    then have "length (span t) + length (rest g') \<le> length (rest g1)"
      using "1.IH" [OF n [symmetric] refl] True by simp
    then show ?thesis
      using Next_split [OF n] by simp
  next
    case False
    then have "t = r" "g' = g1"
      using "1.prems" n by (simp_all add: NextNonWS.simps [of g])
    then show ?thesis
      using Next_split [OF n] by simp
  qed
qed

lemma Next_progress:
  "Next g = (t, g') \<Longrightarrow> type t \<noteq> MALFORMED \<Longrightarrow> length (rest g') < length (rest g)"
  by (auto simp: Next_def Let_def next_token_from_regex_def meta_token_def
      split: option.splits dest: regex_bounds)

lemma NextNonWS_progress:
  "NextNonWS g = (t, g') \<Longrightarrow> type t \<noteq> MALFORMED \<Longrightarrow> length (rest g') < length (rest g)"
proof (induction g arbitrary: t g' rule: NextNonWS.induct)
  case (1 g)
  obtain r g1 where n: "Next g = (r, g1)" by (cases "Next g")
  show ?case
  proof (cases "type r = WHITESPACE")
    case True
    then have "NextNonWS g1 = (t, g')"
      using "1.prems"(1) n by (simp add: NextNonWS.simps [of g])
    then have "length (rest g') < length (rest g1)"
      using "1.IH" [OF n [symmetric] refl] True "1.prems"(2) by simp
    then show ?thesis
      using Next_split [OF n] by simp
  next
    case False
    then have "t = r" "g' = g1"
      using "1.prems"(1) n by (simp_all add: NextNonWS.simps [of g])
    then show ?thesis
      using Next_progress [OF n] "1.prems"(2) by simp
  qed
qed


section \<open>Parser (lines 159-279)\<close>

text \<open>The stream inserter of an unsigned integer prints its decimal digits.\<close>

function dec_string :: "nat \<Rightarrow> string" where
  "dec_string n = (if n < 10 then [char_of (48 + n)]
                   else dec_string (n div 10) @ [char_of (48 + n mod 10)])"
  by pat_completeness auto

termination
  by (relation "measure id") auto

declare dec_string.simps [simp del]

text \<open>
  \<^verbatim>\<open>fn_err\<close> (lines 172-182) builds the message that is stored in \<^verbatim>\<open>*out_err\<close>;
  \<^verbatim>\<open>fn_is_expected\<close> (lines 184-201) returns \<open>None\<close> for \<^verbatim>\<open>true\<close> and the message it
  has stored for \<^verbatim>\<open>false\<close>.
\<close>

definition fn_err :: "Token \<Rightarrow> string \<Rightarrow> string" where
  "fn_err tok expected =
     (let s = str tok; s = (if length s > 20 then take 20 s else s)
      in ''Error: L'' @ dec_string (line_num tok) @ '':'' @ dec_string (line_pos tok)
         @ '': Expected '' @ expected @ '', got: '' @ [dquote] @ s @ [dquote] @ ''.'')"

definition fn_is_expected :: "Token \<Rightarrow> string option \<Rightarrow> string option" where
  "fn_is_expected tok expected_str =
     (case expected_str of
        Some e \<Rightarrow> if tok_eq tok e then None else Some (fn_err tok ([dquote] @ e @ [dquote]))
      | None \<Rightarrow> if type tok \<noteq> MALFORMED then None else Some (fn_err tok ''!MALFORMED''))"

text \<open>
  \<^verbatim>\<open>read(TokenGen*, std::string*)\<close> (lines 168-279) with its two loops. \<open>Inl err\<close> is
  the return of \<^verbatim>\<open>nullptr\<close> with \<open>err\<close> stored in \<^verbatim>\<open>*out_err\<close>; \<open>Inr (ret, g)\<close> is the
  return of the tree \<open>ret\<close> with the generator left at \<open>g\<close>, and \<^verbatim>\<open>*out_err\<close> untouched.
  \<^verbatim>\<open>unescape\<close> leaves \<^verbatim>\<open>key_name\<close> empty when it fails (line 232).
\<close>

function read_val :: "TokenGen \<Rightarrow> string + (Val \<times> TokenGen)"
and read_dict_loop :: "Val \<Rightarrow> TokenGen \<Rightarrow> string + (Val \<times> TokenGen)"
and read_list_loop :: "Val \<Rightarrow> nat \<Rightarrow> TokenGen \<Rightarrow> string + (Val \<times> TokenGen)" where
  "read_val tok_gen =
     (let (tok, g1) = NextNonWS tok_gen in
      if tok_eq tok ''{'' then
        (let cur = set_dict new_Val;
             (peek, peek_gen) = NextNonWS g1
         in if tok_eq peek ''}'' then Inr (cur, peek_gen) else read_dict_loop cur g1)
      else if tok_eq tok ''['' then
        (let cur = set_list new_Val;
             (peek, peek_gen) = NextNonWS g1
         in if tok_eq peek '']'' then Inr (cur, peek_gen) else read_list_loop cur 0 g1)
      else
        (case fn_is_expected tok None of
           Some err \<Rightarrow> Inl err
         | None \<Rightarrow> Inr (val_assign new_Val (str tok), g1)))"
| "read_dict_loop cur tok_gen =
     (let (k, g1) = NextNonWS tok_gen in
      if type k \<noteq> STRING then Inl (fn_err k ''STRING'')
      else
        (let (colon, g2) = NextNonWS g1 in
         case fn_is_expected colon (Some '':'') of
           Some err \<Rightarrow> Inl err
         | None \<Rightarrow>
            (case read_val g2 of
               Inl err \<Rightarrow> Inl err
             | Inr (v, g3) \<Rightarrow>
                (let key_name = (case unescape (str k) of Some s \<Rightarrow> s | None \<Rightarrow> []);
                     cur' = key_store (key_slot cur key_name) key_name v;
                     (comma, g4) = NextNonWS g3
                 in if tok_eq comma ''}'' then Inr (cur', g4)
                    else (case fn_is_expected comma (Some '','') of
                            Some err \<Rightarrow> Inl err
                          | None \<Rightarrow> read_dict_loop cur' g4)))))"
| "read_list_loop cur i tok_gen =
     (case read_val tok_gen of
        Inl err \<Rightarrow> Inl err
      | Inr (v, g3) \<Rightarrow>
         (let cur' = idx_store (idx_slot cur i) i v;
              (comma, g4) = NextNonWS g3
          in if tok_eq comma '']'' then Inr (cur', g4)
             else (case fn_is_expected comma (Some '','') of
                     Some err \<Rightarrow> Inl err
                   | None \<Rightarrow> read_list_loop cur' (i + 1) g4)))"
  by pat_completeness auto

text \<open>
  Termination: a successful read never leaves more text than it was given, and every
  iteration of a loop consumes a token.
\<close>

lemma tok_eq_span: "tok_eq t r \<longleftrightarrow> span t = r"
  by (auto simp: tok_eq_def)

lemma read_shrinks:
  "read_val_read_dict_loop_read_list_loop_dom (Inl g) \<Longrightarrow>
     (\<forall>v g'. read_val g = Inr (v, g') \<longrightarrow> length (rest g') \<le> length (rest g))"
  "read_val_read_dict_loop_read_list_loop_dom (Inr (Inl (cur, g))) \<Longrightarrow>
     (\<forall>v g'. read_dict_loop cur g = Inr (v, g') \<longrightarrow> length (rest g') \<le> length (rest g))"
  "read_val_read_dict_loop_read_list_loop_dom (Inr (Inr (cur, i, g))) \<Longrightarrow>
     (\<forall>v g'. read_list_loop cur i g = Inr (v, g') \<longrightarrow> length (rest g') \<le> length (rest g))"
proof (induct rule: read_val_read_dict_loop_read_list_loop.pinduct)
  case (1 g)
  obtain tok g1 where t: "NextNonWS g = (tok, g1)" by (cases "NextNonWS g")
  obtain peek pg where p: "NextNonWS g1 = (peek, pg)" by (cases "NextNonWS g1")
  note le = NextNonWS_le [OF t] NextNonWS_le [OF p]
  show ?case
  proof (intro allI impI)
    fix v g' assume r: "read_val g = Inr (v, g')"
    show "length (rest g') \<le> length (rest g)"
    proof (cases "tok_eq tok ''{''")
      case True
      show ?thesis
      proof (cases "tok_eq peek ''}''")
        case True
        then show ?thesis
          using r t p le \<open>tok_eq tok ''{''\<close> by (simp add: read_val.psimps [OF "1.hyps"(1)])
      next
        case False
        then have "read_dict_loop (set_dict new_Val) g1 = Inr (v, g')"
          using r t p True by (simp add: read_val.psimps [OF "1.hyps"(1)])
        moreover have "\<forall>v g'. read_dict_loop (set_dict new_Val) g1 = Inr (v, g')
                        \<longrightarrow> length (rest g') \<le> length (rest g1)"
          using "1.hyps"(2) [OF refl t [symmetric] True refl refl p [symmetric] False] .
        ultimately show ?thesis using le by fastforce
      qed
    next
      case notbrace: False
      show ?thesis
      proof (cases "tok_eq tok ''[''")
        case True
        show ?thesis
        proof (cases "tok_eq peek '']''")
          case True
          then show ?thesis
            using r t p le notbrace \<open>tok_eq tok ''[''\<close>
            by (simp add: read_val.psimps [OF "1.hyps"(1)])
        next
          case False
          then have "read_list_loop (set_list new_Val) 0 g1 = Inr (v, g')"
            using r t p True notbrace by (simp add: read_val.psimps [OF "1.hyps"(1)])
          moreover have "\<forall>v g'. read_list_loop (set_list new_Val) 0 g1 = Inr (v, g')
                          \<longrightarrow> length (rest g') \<le> length (rest g1)"
            using "1.hyps"(3) [OF refl t [symmetric] notbrace True refl refl p [symmetric] False] .
          ultimately show ?thesis using le by fastforce
        qed
      next
        case False
        then show ?thesis
          using r t le notbrace
          by (simp add: read_val.psimps [OF "1.hyps"(1)] split: option.splits)
      qed
    qed
  qed
next
  case (2 cur g)
  obtain k g1 where k: "NextNonWS g = (k, g1)" by (cases "NextNonWS g")
  obtain colon g2 where c: "NextNonWS g1 = (colon, g2)" by (cases "NextNonWS g1")
  note le = NextNonWS_le [OF k] NextNonWS_le [OF c]
  show ?case
  proof (intro allI impI)
    fix v g' assume r: "read_dict_loop cur g = Inr (v, g')"
    have ty: "\<not> type k \<noteq> STRING"
      using r k by (auto simp: read_dict_loop.psimps [OF "2.hyps"(1)] Let_def split: if_splits)
    have ex: "fn_is_expected colon (Some '':'') = None"
      using r k c ty by (auto simp: read_dict_loop.psimps [OF "2.hyps"(1)] Let_def split: option.splits)
    obtain w g3 where w: "read_val g2 = Inr (w, g3)"
      using r k c ty ex
      by (auto simp: read_dict_loop.psimps [OF "2.hyps"(1)] Let_def split: sum.splits)
    obtain comma g4 where m: "NextNonWS g3 = (comma, g4)" by (cases "NextNonWS g3")
    have "\<forall>v g'. read_val g2 = Inr (v, g') \<longrightarrow> length (rest g') \<le> length (rest g2)"
      using "2.hyps"(2) [OF refl k [symmetric] ty refl c [symmetric] ex] .
    then have le3: "length (rest g3) \<le> length (rest g2)"
      using w by blast
    define key_name where "key_name = (case unescape (str k) of None \<Rightarrow> [] | Some s \<Rightarrow> s)"
    define cur' where "cur' = key_store (key_slot cur key_name) key_name w"
    show "length (rest g') \<le> length (rest g)"
    proof (cases "tok_eq comma ''}''")
      case True
      then have "g' = g4"
        using r k c ty ex w m by (simp add: read_dict_loop.psimps [OF "2.hyps"(1)] Let_def)
      then show ?thesis
        using le le3 NextNonWS_le [OF m] by simp
    next
      case False
      then have ex2: "fn_is_expected comma (Some '','') = None"
        using r k c ty ex w m
        by (auto simp: read_dict_loop.psimps [OF "2.hyps"(1)] Let_def split: option.splits)
      have "read_dict_loop cur' g4 = Inr (v, g')"
        using r k c ty ex w m False ex2
        by (simp add: read_dict_loop.psimps [OF "2.hyps"(1)] Let_def cur'_def key_name_def)
      moreover have "\<forall>v g'. read_dict_loop cur' g4 = Inr (v, g')
                      \<longrightarrow> length (rest g') \<le> length (rest g4)"
        using "2.hyps"(3) [OF refl k [symmetric] ty refl c [symmetric] ex w refl
            key_name_def cur'_def refl m [symmetric] False ex2] .
      ultimately show ?thesis
        using le le3 NextNonWS_le [OF m] by fastforce
    qed
  qed
next
  case (3 cur i g)
  show ?case
  proof (intro allI impI)
    fix v g' assume r: "read_list_loop cur i g = Inr (v, g')"
    obtain w g3 where w: "read_val g = Inr (w, g3)"
      using r by (auto simp: read_list_loop.psimps [OF "3.hyps"(1)] Let_def split: sum.splits)
    obtain comma g4 where m: "NextNonWS g3 = (comma, g4)" by (cases "NextNonWS g3")
    have le3: "length (rest g3) \<le> length (rest g)"
      using "3.hyps"(2) w by blast
    define cur' where "cur' = idx_store (idx_slot cur i) i w"
    show "length (rest g') \<le> length (rest g)"
    proof (cases "tok_eq comma '']''")
      case True
      then have "g' = g4"
        using r w m by (simp add: read_list_loop.psimps [OF "3.hyps"(1)] Let_def)
      then show ?thesis
        using le3 NextNonWS_le [OF m] by simp
    next
      case False
      then have ex2: "fn_is_expected comma (Some '','') = None"
        using r w m
        by (auto simp: read_list_loop.psimps [OF "3.hyps"(1)] Let_def split: option.splits)
      have "read_list_loop cur' (i + 1) g4 = Inr (v, g')"
        using r w m False ex2
        by (simp add: read_list_loop.psimps [OF "3.hyps"(1)] Let_def cur'_def)
      moreover have "\<forall>v g'. read_list_loop cur' (i + 1) g4 = Inr (v, g')
                      \<longrightarrow> length (rest g') \<le> length (rest g4)"
        using "3.hyps"(3) [OF w refl cur'_def refl m [symmetric] False ex2] .
      ultimately show ?thesis
        using le3 NextNonWS_le [OF m] by fastforce
    qed
  qed
qed

lemma NextNonWS_shrinks:
  "(t, g') = NextNonWS g \<Longrightarrow> length (rest g') \<le> length (rest g)"
  using NextNonWS_le [of g t g'] by simp

lemma NextNonWS_consumes:
  "(t, g') = NextNonWS g \<Longrightarrow> tok_eq t (c # cs) \<Longrightarrow> length (rest g') < length (rest g)"
  using NextNonWS_le [of g t g'] by (simp add: tok_eq_span)

lemma fn_is_expected_Some:
  "fn_is_expected t (Some r) = None \<longleftrightarrow> tok_eq t r"
  by (simp add: fn_is_expected_def)

termination read_val
proof (relation "measure (\<lambda>x. case x of Inl g \<Rightarrow> 2 * length (rest g)
            | Inr (Inl (cur, g)) \<Rightarrow> 2 * length (rest g) + 1
            | Inr (Inr (cur, i, g)) \<Rightarrow> 2 * length (rest g) + 1)", goal_cases)
  case 1
  show ?case by simp
next
  case (2 tok_gen x xa y xb xc xd ya)
  then show ?case
    using NextNonWS_consumes [of xa y tok_gen "CHR ''{''" "[]"] by simp
next
  case (3 tok_gen x xa y xb xc xd ya)
  then show ?case
    using NextNonWS_consumes [of xa y tok_gen "CHR ''[''" "[]"] by simp
next
  case (4 cur tok_gen x xa y xb xc ya)
  then show ?case
    using NextNonWS_shrinks [of xa y tok_gen] NextNonWS_shrinks [of xc ya y] by simp
next
  case (5 cur tok_gen x xa y xb xc ya b xd yb xe xf xg xh yc)
  have "length (rest yb) \<le> length (rest ya)"
    using read_shrinks(1) [OF 5(15)] 5(7,8) by auto
  moreover have "length (rest yc) < length (rest yb)"
    using 5(11,12,14) NextNonWS_consumes [of xh yc yb "CHR '',''" "[]"] by (simp add: fn_is_expected_Some)
  ultimately show ?case
    using 5(1-5) NextNonWS_shrinks [of xa y tok_gen] NextNonWS_shrinks [of xc ya y] by simp
next
  case (6 cur i tok_gen)
  show ?case by simp
next
  case (7 cur i tok_gen b x y xa xb xc ya)
  have "length (rest y) \<le> length (rest tok_gen)"
    using read_shrinks(1) [OF 7(8)] 7(1,2) by auto
  moreover have "length (rest ya) < length (rest y)"
    using 7(4,5,7) NextNonWS_consumes [of xc ya y "CHR '',''" "[]"] by (simp add: fn_is_expected_Some)
  ultimately show ?case by simp
qed

declare read_val.simps [simp del] read_dict_loop.simps [simp del] read_list_loop.simps [simp del]

text \<open>
  \<^verbatim>\<open>read(begin, end, out_err)\<close> (lines 159-166). The second argument is the content of
  \<^verbatim>\<open>*out_err\<close> before the call, the second component of the result its content after.
\<close>

definition read_range :: "string \<Rightarrow> string \<Rightarrow> Val option \<times> string" where
  "read_range input out_err =
     (case read_val (TokenGen_init input) of
        Inl err \<Rightarrow> (None, err)
      | Inr (ret, g) \<Rightarrow> (Some ret, out_err))"

section \<open>Writer (lines 281-331)\<close>

text \<open>
  \<^verbatim>\<open>write\<close> appends to the stream; the functions return the text that is appended. The
  two loops carry \<^verbatim>\<open>needsComma\<close>.

  Modelled from the spec: the getters \<^verbatim>\<open>is_dict\<close>, \<^verbatim>\<open>dict\<close>, \<^verbatim>\<open>is_list\<close>, \<^verbatim>\<open>list\<close>, \<^verbatim>\<open>val\<close>
  and the member \<^verbatim>\<open>Val::write\<close> are defined in \<^verbatim>\<open>tjson.h\<close>. By section 4.5 the writer
  tells the three variants apart and writes the children in the same way: the getters
  read the members and \<^verbatim>\<open>Val::write\<close> is \<^verbatim>\<open>write\<close> on the child.
\<close>

fun write_val :: "Val \<Rightarrow> string \<Rightarrow> string"
and write_dict_loop :: "(string \<times> Val) list \<Rightarrow> string \<Rightarrow> bool \<Rightarrow> string"
and write_list_loop :: "Val list \<Rightarrow> string \<Rightarrow> bool \<Rightarrow> string" where
  "write_val (Val d di l li s) indent =
     (if di then
        (if d = [] then ''{}''
         else ''{'' @ write_dict_loop d (indent @ ''   '') False
              @ [newline] @ indent @ ''}'')
      else if li then
        (if l = [] then ''[]''
         else ''['' @ write_list_loop l (indent @ ''   '') False
              @ [newline] @ indent @ '']'')
      else s)"
| "write_dict_loop [] indent_plus needsComma = []"
| "write_dict_loop ((k, v) # kvs) indent_plus needsComma =
     (if needsComma then '','' else []) @ [newline] @ indent_plus @ escape k @ '': ''
       @ write_val v indent_plus @ write_dict_loop kvs indent_plus True"
| "write_list_loop [] indent_plus needsComma = []"
| "write_list_loop (v # vs) indent_plus needsComma =
     (if needsComma then '','' else []) @ [newline] @ indent_plus
       @ write_val v indent_plus @ write_list_loop vs indent_plus True"

section \<open>Notions used in the statements\<close>

text \<open>
  A node holds the content of at most one variant: not both flags, entries only in
  Object mode, elements only in Array mode; \<open>exclusive_tree\<close> asks it of a node and of
  all its descendants.
\<close>

definition exclusive :: "Val \<Rightarrow> bool" where
  "exclusive v =
     (\<not> (is_dict_fld v \<and> is_list_fld v) \<and> (dict_fld v \<noteq> [] \<longrightarrow> is_dict_fld v)
      \<and> (list_fld v \<noteq> [] \<longrightarrow> is_list_fld v))"

fun exclusive_tree :: "Val \<Rightarrow> bool" where
  "exclusive_tree (Val d di l li s) =
     (exclusive (Val d di l li s)
      \<and> list_all exclusive_tree (map snd d) \<and> list_all exclusive_tree l)"

text \<open>
  The nodes a caller can reach: a fresh node, the results of \<^verbatim>\<open>reset\<close>, \<^verbatim>\<open>set_dict\<close>,
  \<^verbatim>\<open>set_list\<close>, a text assignment and the two mutating accessors, an assignment of a
  reachable child through the reference an accessor returned, and a tree that the parser
  returned.
\<close>

inductive built :: "Val \<Rightarrow> bool" where
  built_new: "built new_Val"
| built_reset: "built v \<Longrightarrow> built (reset v)"
| built_set_dict: "built v \<Longrightarrow> built (set_dict v)"
| built_set_list: "built v \<Longrightarrow> built (set_list v)"
| built_val: "built v \<Longrightarrow> built (val_assign v s)"
| built_key_slot: "built v \<Longrightarrow> built (key_slot v x)"
| built_key_store: "built v \<Longrightarrow> built c \<Longrightarrow> built (key_store (key_slot v x) x c)"
| built_idx_slot: "built v \<Longrightarrow> built (idx_slot v i)"
| built_idx_store: "built v \<Longrightarrow> built c \<Longrightarrow> built (idx_store (idx_slot v i) i c)"
| built_read: "read_val g = Inr (v, g') \<Longrightarrow> built v"

text \<open>The steps of the parser, given the tokens it reads.\<close>

definition key_of :: "Token \<Rightarrow> string" where
  "key_of k = (case unescape (str k) of Some s \<Rightarrow> s | None \<Rightarrow> [])"

text \<open>
  The tokens of an input: what \<^verbatim>\<open>NextNonWS\<close> returns, call after call, up to the first
  \<^verbatim>\<open>MALFORMED\<close> token. (That token spans all the text that is left, which is no text at
  the end of the input.)
\<close>

function token_stream :: "TokenGen \<Rightarrow> Token list" where
  "token_stream g =
     (let (t, g') = NextNonWS g in if type t = MALFORMED then [t] else t # token_stream g')"
  by pat_completeness auto
termination
  by (relation "measure (\<lambda>g. length (rest g))") (auto intro: NextNonWS_progress [OF sym])

declare token_stream.simps [simp del]

text \<open>
  The line and the column of the character that follows the text \<open>before\<close>, counted from
  1: one more than the number of line feeds in \<open>before\<close>, and one more than the number of
  characters behind the last of them.
\<close>

definition line_of :: "string \<Rightarrow> nat" where
  "line_of before = 1 + length (filter (\<lambda>c. c = newline) before)"

definition column_of :: "string \<Rightarrow> nat" where
  "column_of before = 1 + length (takeWhile (\<lambda>c. c \<noteq> newline) (rev before))"

text \<open>
  The token is not what the description calls for. The descriptions are the four that
  the parser passes to \<^verbatim>\<open>fn_err\<close>: \<^verbatim>\<open>STRING\<close> (line 219), the quoted texts of the colon and
  of the comma (line 192, for the calls of lines 224, 238 and 266) and \<^verbatim>\<open>!MALFORMED\<close>
  (line 197).
\<close>

definition unexpected :: "Token \<Rightarrow> string \<Rightarrow> bool" where
  "unexpected tok expected =
     (if expected = ''STRING'' then type tok \<noteq> STRING
      else if expected = [dquote] @ '':'' @ [dquote] then str tok \<noteq> '':''
      else if expected = [dquote] @ '','' @ [dquote] then str tok \<noteq> '',''
      else expected = ''!MALFORMED'' \<and> type tok = MALFORMED)"

text \<open>The class and the length of the token that \<open>Next\<close> returns on a text.\<close>

definition classify :: "string \<Rightarrow> Type \<times> nat" where
  "classify s =
     (case RE_WHITESPACE s of Some n \<Rightarrow> (WHITESPACE, n) | None \<Rightarrow>
     (case RE_STRING s of Some n \<Rightarrow> (STRING, n) | None \<Rightarrow>
     (case RE_WORD s of Some n \<Rightarrow> (WORD, n) | None \<Rightarrow>
     (case RE_SYMBOL s of Some n \<Rightarrow> (SYMBOL, n) | None \<Rightarrow> (MALFORMED, length s)))))"

definition token_at :: "TokenGen \<Rightarrow> Type \<Rightarrow> nat \<Rightarrow> Token \<times> TokenGen" where
  "token_at g ty n =
     (\<lparr>span = take n (rest g), line_num = gen_line_num g, line_pos = gen_line_pos g,
       type = ty\<rparr>,
      \<lparr>rest = drop n (rest g),
       gen_line_num = fst (advance (take n (rest g)) (gen_line_num g, gen_line_pos g)),
       gen_line_pos = snd (advance (take n (rest g)) (gen_line_num g, gen_line_pos g))\<rparr>)"

text \<open>Text appended to the input, behind what is left.\<close>

definition more :: "TokenGen \<Rightarrow> string \<Rightarrow> TokenGen" where
  "more g r = g\<lparr>rest := rest g @ r\<rparr>"

text \<open>A Scalar whose text ends in a character of a word.\<close>

definition word_ended :: "Val \<Rightarrow> bool" where
  "word_ended v =
     (\<not> is_dict_fld v \<and> \<not> is_list_fld v \<and> val_fld v \<noteq> [] \<and> is_word_char (last (val_fld v)))"

text \<open>The assignment \<^verbatim>\<open>cur[key_name] = std::move(v)\<close> of line 233.\<close>

definition store_entry :: "Val \<Rightarrow> string \<times> Val \<Rightarrow> Val" where
  "store_entry n kv = key_store (key_slot n (fst kv)) (fst kv) (snd kv)"

text \<open>
  The text at \<open>g\<close> is a sequence of entries, each a string, a colon and a value, with
  commas between them and a closing brace behind the last one, which ends at \<open>g'\<close>;
  \<open>kvs\<close> are the unescaped keys and the values of the entries, in the order of the text.
\<close>

fun dict_entries :: "TokenGen \<Rightarrow> (string \<times> Val) list \<Rightarrow> TokenGen \<Rightarrow> bool" where
  "dict_entries g [] g' = False"
| "dict_entries g (kv # kvs) g' =
     (case NextNonWS g of (k, g1) \<Rightarrow>
      case NextNonWS g1 of (colon, g2) \<Rightarrow>
        type k = STRING \<and> key_of k = fst kv \<and> tok_eq colon '':'' \<and>
        (case read_val g2 of
           Inl e \<Rightarrow> False
         | Inr (w, g3) \<Rightarrow>
             w = snd kv \<and>
             (case NextNonWS g3 of (comma, g4) \<Rightarrow>
                if kvs = [] then tok_eq comma ''}'' \<and> g4 = g'
                else tok_eq comma '','' \<and> dict_entries g4 kvs g')))"

text \<open>
  A text that is one token, all of it: a \<^verbatim>\<open>STRING\<close>, a \<^verbatim>\<open>WORD\<close> or a \<^verbatim>\<open>SYMBOL\<close> other than
  the opening brace and the opening bracket.
\<close>

definition token_text :: "string \<Rightarrow> bool" where
  "token_text s =
     ((classify s = (STRING, length s) \<or> classify s = (WORD, length s)
       \<or> classify s = (SYMBOL, length s))
      \<and> s \<noteq> ''{'' \<and> s \<noteq> ''['')"

text \<open>
  What \<^verbatim>\<open>write\<close> reads of a tree (lines 284, 285, 307, 308 and 330): the entries of a node
  in Object mode; otherwise the elements of a node in Array mode; otherwise the text.
  \<open>stripped\<close> keeps that and drops what the writer never looks at (the text or the
  elements that an Object still holds, the text of an Array), in every descendant too.
\<close>

fun stripped :: "Val \<Rightarrow> Val" where
  "stripped (Val d di l li s) =
     (if di then Val (map (\<lambda>kv. (fst kv, stripped (snd kv))) d) True [] False []
      else if li then Val [] False (map stripped l) True []
      else Val [] False [] False s)"

text \<open>The Scalar whose text is the closing bracket.\<close>

definition closing_bracket :: "Val \<Rightarrow> bool" where
  "closing_bracket v = (\<not> is_dict_fld v \<and> \<not> is_list_fld v \<and> val_fld v = '']'')"

text \<open>
  The entries \<open>d\<close> of an Object, in the order in which \<^verbatim>\<open>write\<close> iterates over them, put
  one after the other into an empty \<^verbatim>\<open>dict_\<close>: this is what the parser does with the
  entries that it reads (line 233).
\<close>

definition reinserted :: "(string \<times> Val) list \<Rightarrow> (string \<times> Val) list" where
  "reinserted d = fold (\<lambda>kv m. map_put (fst kv) (snd kv) m) d []"

text \<open>
  The trees of the round trip. Every Scalar holds one token (\<open>token_text\<close>); the first
  element of an Array is not the Scalar \<^verbatim>\<open>]\<close>; the entries of every Object stand in the
  order in which putting them into an empty \<^verbatim>\<open>dict_\<close> leaves them. With the key-ordered
  map that \<open>map_put\<close> models, this is the increasing order of the keys, in which every
  Object that the accessors build holds its entries. Nothing is asked of what the writer
  does not look at.
\<close>

fun writable :: "Val \<Rightarrow> bool" where
  "writable (Val d di l li s) =
     (if di then reinserted d = d \<and> list_all writable (map snd d)
      else if li then list_all writable l \<and> (case l of [] \<Rightarrow> True | v # vs \<Rightarrow> \<not> closing_bracket v)
      else token_text s)"

text \<open>A tree for which \<^verbatim>\<open>write\<close> uses the indentation: an Object or an Array with children.\<close>

definition indented :: "Val \<Rightarrow> bool" where
  "indented v = (if is_dict_fld v then dict_fld v \<noteq> [] else is_list_fld v \<and> list_fld v \<noteq> [])"

text \<open>
  The trees of \<open>writable\<close> that hold nothing but what the writer looks at: they are their
  own \<open>stripped\<close> tree.
\<close>

fun plain :: "Val \<Rightarrow> bool" where
  "plain (Val d di l li s) =
     (if di then \<not> li \<and> l = [] \<and> s = [] \<and> sorted_wrt (<) (map fst d)
                 \<and> list_all plain (map snd d)
      else if li then d = [] \<and> s = [] \<and> list_all plain l
                 \<and> (case l of [] \<Rightarrow> True | v # vs \<Rightarrow> \<not> closing_bracket v)
      else d = [] \<and> l = [] \<and> token_text s)"

text \<open>
  The text of \<open>t\<close>, written at any indentation of blanks, behind any blanks and in front
  of any text that does not go on with a character of a word, is read as \<open>t\<close>, up to
  that text.
\<close>

definition reads_back :: "Val \<Rightarrow> bool" where
  "reads_back t =
     (\<forall>indent w r (g::TokenGen).
        (\<forall>c\<in>set indent. is_ws_char c) \<longrightarrow> (\<forall>c\<in>set w. is_ws_char c) \<longrightarrow>
        (r = [] \<or> \<not> is_word_char (hd r)) \<longrightarrow>
        rest g = w @ write_val t indent @ r \<longrightarrow>
        (\<exists>g'. read_val g = Inr (t, g') \<and> rest g' = r))"

text \<open>
  The generator \<open>g\<close> without the last \<open>k\<close> characters of the text that is left, and with
  the text \<open>s\<close> in their place.
\<close>

definition cut :: "nat \<Rightarrow> TokenGen \<Rightarrow> TokenGen" where
  "cut k g = g\<lparr>rest := take (length (rest g) - k) (rest g)\<rparr>"

definition repl :: "nat \<Rightarrow> string \<Rightarrow> TokenGen \<Rightarrow> TokenGen" where
  "repl k s g = g\<lparr>rest := take (length (rest g) - k) (rest g) @ s\<rparr>"

text \<open>
  \<open>ahead g h\<close>: the generator gets from \<open>g\<close> to \<open>h\<close> by calls of \<^verbatim>\<open>NextNonWS\<close>, none of which
  returns a \<^verbatim>\<open>MALFORMED\<close> token.
\<close>

inductive ahead :: "TokenGen \<Rightarrow> TokenGen \<Rightarrow> bool" where
  ahead_refl: "ahead g g"
| ahead_step: "NextNonWS g = (t, g1) \<Longrightarrow> type t \<noteq> MALFORMED \<Longrightarrow> ahead g1 h \<Longrightarrow> ahead g h"

text \<open>
  Whichever of the six symbols the next token at \<open>g\<close> is not, the next token at \<open>h\<close> is
  not either.
\<close>

definition keeps_first :: "TokenGen \<Rightarrow> TokenGen \<Rightarrow> bool" where
  "keeps_first g h =
     (\<forall>x. is_symbol_char x \<longrightarrow> \<not> tok_eq (fst (NextNonWS g)) [x]
        \<longrightarrow> \<not> tok_eq (fst (NextNonWS h)) [x])"

text \<open>A text that does not go on with a character of a word.\<close>

definition bnd :: "string \<Rightarrow> bool" where
  "bnd r = (r = [] \<or> \<not> is_word_char (hd r))"

text \<open>
  The function \<open>f\<close> (the parser or one of its loops) has failed at \<open>g\<close> with the message
  \<open>e\<close>, and the token of the message is where the text went wrong. The message is built
  by \<^verbatim>\<open>fn_err\<close> for a token \<open>tok\<close> that \<^verbatim>\<open>NextNonWS\<close> returned after the tokens from \<open>g\<close> on,
  and \<open>tok\<close> is not what the message says was expected. Unless \<open>tok\<close> is \<^verbatim>\<open>MALFORMED\<close>,
  \<open>f\<close> fails on every text that is the same up to the end of \<open>tok\<close>. Some text \<open>c\<close> in
  the place of \<open>tok\<close> and of all that follows it makes \<open>f\<close> succeed, and leave unread
  whatever stands behind \<open>c\<close>.
\<close>

definition pinned :: "(TokenGen \<Rightarrow> string + Val \<times> TokenGen) \<Rightarrow> TokenGen \<Rightarrow> string \<Rightarrow> bool" where
  "pinned f g e =
     (\<exists>tok expected gt gt1.
        e = fn_err tok expected \<and> unexpected tok expected \<and> ahead g gt
        \<and> NextNonWS gt = (tok, gt1)
        \<and> (type tok \<noteq> MALFORMED \<longrightarrow>
             (\<forall>s. (\<exists>e2. f (repl (length (rest gt1)) s g) = Inl e2)
                  \<and> keeps_first g (repl (length (rest gt1)) s g)))
        \<and> (\<exists>c. \<forall>r. bnd r \<longrightarrow>
             (\<exists>v g'. f (repl (length (span tok) + length (rest gt1)) (c @ r) g) = Inr (v, g')
                     \<and> rest g' = r)
             \<and> keeps_first g (repl (length (span tok) + length (rest gt1)) (c @ r) g)))"

text \<open>
  What the loops of the parser keep of the node that they fill: an Object with its
  entries in key order, an Array whose first element is not the Scalar \<^verbatim>\<open>]\<close>, and
  children that are trees of \<open>writable\<close>.
\<close>

definition dict_node :: "Val \<Rightarrow> bool" where
  "dict_node v =
     (is_dict_fld v \<and> sorted_wrt (<) (map fst (dict_fld v))
      \<and> list_all writable (map snd (dict_fld v)))"

definition list_node :: "Val \<Rightarrow> bool" where
  "list_node v =
     (is_list_fld v \<and> \<not> is_dict_fld v \<and> list_all writable (list_fld v)
      \<and> (case list_fld v of [] \<Rightarrow> True | x # xs \<Rightarrow> \<not> closing_bracket x))"

section \<open>Escaper: proofs\<close>

lemma unescape_loop_in_escape:
  "unescape_loop True wip (c # cs) = unescape_loop False (wip @ [c]) cs"
  by simp

lemma unescape_loop_strip:
  "case strip_escapes body of
     None \<Rightarrow> fst (unescape_loop False wip body)
   | Some r \<Rightarrow> unescape_loop False wip body = (False, wip @ r)"
proof (induction body arbitrary: wip rule: strip_escapes.induct)
  case 1
  show ?case by simp
next
  case (2 c)
  show ?case by simp
next
  case (3 c d ds)
  show ?case
  proof (cases "c = backslash")
    case True
    have "unescape_loop False wip (c # d # ds) = unescape_loop False (wip @ [d]) ds"
      using True by simp
    then show ?thesis
      using True "3.IH"(1) [OF True, where wip = "wip @ [d]"]
      by (cases "strip_escapes ds") simp_all
  next
    case False
    have "unescape_loop False wip (c # d # ds) = unescape_loop False (wip @ [c]) (d # ds)"
      using False by simp
    then show ?thesis
      using False "3.IH"(2) [OF False, where wip = "wip @ [c]"]
      by (cases "strip_escapes (d # ds)") simp_all
  qed
qed

lemma run_all_backslash:
  "\<forall>x\<in>set cs. x = backslash \<Longrightarrow> takeWhile (\<lambda>c. c = backslash) (rev cs) = rev cs"
  by (simp add: takeWhile_eq_all_conv)

lemma run_snoc_other:
  "c \<noteq> backslash \<Longrightarrow>
   takeWhile (\<lambda>c. c = backslash) (rev (c # cs)) = takeWhile (\<lambda>c. c = backslash) (rev cs)"
  by (auto simp: takeWhile_append run_all_backslash)

lemma run_not_all_backslash:
  "\<not> (\<forall>x\<in>set cs. x = backslash) \<Longrightarrow>
   takeWhile (\<lambda>c. c = backslash) (rev (a # cs)) = takeWhile (\<lambda>c. c = backslash) (rev cs)"
  by (auto simp: takeWhile_append)

lemma run_all_length:
  "\<forall>x\<in>set cs. x = backslash \<Longrightarrow>
   length (takeWhile (\<lambda>c. c = backslash) (rev cs)) = length cs"
  using run_all_backslash [of cs] by (simp del: takeWhile_eq_all_conv)

lemma dangling_other:
  "c \<noteq> backslash \<Longrightarrow> dangling_backslash (c # cs) = dangling_backslash cs"
  using run_snoc_other [of c cs] unfolding dangling_backslash_def by (rule arg_cong)

lemma dangling_pair:
  "dangling_backslash (backslash # d # ds) = dangling_backslash ds"
proof (cases "\<forall>x\<in>set ds. x = backslash")
  case all: True
  show ?thesis
  proof (cases "d = backslash")
    case True
    have "\<forall>x\<in>set (backslash # d # ds). x = backslash"
      using all True by simp
    then have "length (takeWhile (\<lambda>c. c = backslash) (rev (backslash # d # ds)))
               = length (backslash # d # ds)"
      by (rule run_all_length)
    moreover have "length (takeWhile (\<lambda>c. c = backslash) (rev ds)) = length ds"
      using all by (rule run_all_length)
    ultimately show ?thesis
      unfolding dangling_backslash_def by simp
  next
    case False
    have "\<not> (\<forall>x\<in>set (d # ds). x = backslash)"
      using False by simp
    then have "takeWhile (\<lambda>c. c = backslash) (rev (backslash # d # ds))
               = takeWhile (\<lambda>c. c = backslash) (rev (d # ds))"
      by (rule run_not_all_backslash)
    also have "\<dots> = takeWhile (\<lambda>c. c = backslash) (rev ds)"
      using False by (rule run_snoc_other)
    finally show ?thesis
      unfolding dangling_backslash_def by (rule arg_cong)
  qed
next
  case False
  then have "\<not> (\<forall>x\<in>set (d # ds). x = backslash)"
    by simp
  then have "takeWhile (\<lambda>c. c = backslash) (rev (backslash # d # ds))
             = takeWhile (\<lambda>c. c = backslash) (rev (d # ds))"
    by (rule run_not_all_backslash)
  also have "\<dots> = takeWhile (\<lambda>c. c = backslash) (rev ds)"
    using False by (rule run_not_all_backslash)
  finally show ?thesis
    unfolding dangling_backslash_def by (rule arg_cong)
qed

lemma strip_escapes_None_iff:
  "strip_escapes body = None \<longleftrightarrow> dangling_backslash body"
proof (induction body rule: strip_escapes.induct)
  case 1
  show ?case by (simp add: dangling_backslash_def)
next
  case (2 c)
  show ?case by (simp add: dangling_backslash_def)
next
  case (3 c d ds)
  show ?case
  proof (cases "c = backslash")
    case False
    then show ?thesis
      using "3.IH"(2) [OF False] dangling_other [of c "d # ds"] by simp
  next
    case True
    then show ?thesis
      using "3.IH"(1) [OF True] dangling_pair [of d ds] by simp
  qed
qed

lemma body_eq:
  "2 \<le> length s \<Longrightarrow> take (length s - 2) (drop 1 s) = butlast (tl s)"
  by (simp add: butlast_conv_take drop_Suc numeral_2_eq_2)

lemma ends_eq:
  "2 \<le> length s \<Longrightarrow> s ! 0 = hd s \<and> s ! (length s - 1) = last s"
  by (cases s) (simp_all add: last_conv_nth)

lemma unescape_quoted:
  assumes "2 \<le> length s" "hd s = dquote" "last s = dquote"
  shows "unescape s = strip_escapes (butlast (tl s))"
proof -
  have q: "s ! 0 = dquote" "s ! (length s - 1) = dquote"
    using assms ends_eq [of s] by simp_all
  have u: "unescape s = (case unescape_loop False [] (butlast (tl s)) of
              (in_escape, wip) \<Rightarrow> if in_escape then None else Some wip)"
    using assms(1) q body_eq [OF assms(1)] by (simp add: unescape_def)
  show ?thesis
  proof (cases "strip_escapes (butlast (tl s))")
    case None
    then have "fst (unescape_loop False [] (butlast (tl s)))"
      using unescape_loop_strip [where body = "butlast (tl s)" and wip = "[]"] by simp
    then show ?thesis
      using None u by (simp add: case_prod_beta)
  next
    case (Some r)
    then have "unescape_loop False [] (butlast (tl s)) = (False, r)"
      using unescape_loop_strip [where body = "butlast (tl s)" and wip = "[]"] by simp
    then show ?thesis
      using Some u by simp
  qed
qed

lemma unescape_unquoted:
  assumes "length s < 2 \<or> \<not> (hd s = dquote \<and> last s = dquote)"
  shows "unescape s = None"
proof (cases "length s < 2")
  case True
  then show ?thesis by (simp add: unescape_def)
next
  case False
  then have "2 \<le> length s" by simp
  then show ?thesis
    using assms ends_eq [of s] by (auto simp: unescape_def)
qed

text \<open>
  Claim C8. \<^verbatim>\<open>unescape\<close> fails exactly when the input is shorter than two characters,
  or does not both begin and end with a double quote, or its body ends in a dangling
  backslash; otherwise it returns the body (the input without its outer quotes) with
  one backslash removed before each escaped character.
\<close>

theorem unescape_fails_exactly:
  "(unescape s = None \<longleftrightarrow>
      length s < 2 \<or> \<not> (hd s = dquote \<and> last s = dquote)
      \<or> dangling_backslash (butlast (tl s)))
   \<and> (unescape s \<noteq> None \<longrightarrow> unescape s = strip_escapes (butlast (tl s)))"
proof (cases "length s < 2 \<or> \<not> (hd s = dquote \<and> last s = dquote)")
  case True
  then have "unescape s = None"
    by (rule unescape_unquoted)
  then show ?thesis using True by blast
next
  case False
  then have "unescape s = strip_escapes (butlast (tl s))"
    by (intro unescape_quoted) simp_all
  then show ?thesis
    using False strip_escapes_None_iff [of "butlast (tl s)"] by simp
qed

theorem unescape_fails_exactly_witness:
  "unescape [dquote, CHR ''a'', backslash, dquote, CHR ''b'', dquote]
     = strip_escapes [CHR ''a'', backslash, dquote, CHR ''b'']
   \<and> strip_escapes [CHR ''a'', backslash, dquote, CHR ''b''] = Some [CHR ''a'', dquote, CHR ''b'']
   \<and> unescape [dquote, CHR ''a'', backslash, dquote] = None
   \<and> dangling_backslash [CHR ''a'', backslash]"
  using unescape_fails_exactly [of "[dquote, CHR ''a'', backslash, dquote, CHR ''b'', dquote]"]
    unescape_fails_exactly [of "[dquote, CHR ''a'', backslash, dquote]"]
  by (simp add: dquote_def backslash_def dangling_backslash_def)

section \<open>Node model: proofs\<close>

lemma map_find_map_put_same: "map_find k (map_put k v d) = Some v"
  by (induction d) (auto simp: map_find_def)

lemma map_put_nonempty: "map_put k v d \<noteq> []"
  by (cases d) (auto split: if_splits)

lemma list_all_map_put:
  "P v \<Longrightarrow> list_all P (map snd d) \<Longrightarrow> list_all P (map snd (map_put k v d))"
  by (induction d) auto

lemma list_all_update:
  "P c \<Longrightarrow> list_all P l \<Longrightarrow> list_all P (l[i := c])"
  by (induction l arbitrary: i) (auto split: nat.splits)

lemma grow_loop_eq: "grow_loop l i = l @ replicate (Suc i - length l) new_Val"
proof (induction l i rule: grow_loop.induct)
  case (1 l i)
  show ?case
  proof (cases "i \<ge> length l")
    case True
    then have "grow_loop l i = grow_loop (l @ [new_Val]) i"
      by (simp add: grow_loop.simps [of l i])
    also have "\<dots> = (l @ [new_Val]) @ replicate (Suc i - length (l @ [new_Val])) new_Val"
      using True by (rule "1.IH")
    also have "\<dots> = l @ replicate (Suc i - length l) new_Val"
      using True by (simp add: Suc_diff_le replicate_app_Cons_same)
    finally show ?thesis .
  next
    case False
    then show ?thesis
      by (simp add: grow_loop.simps [of l i])
  qed
qed

lemma exclusive_tree_unfold:
  "exclusive_tree v \<longleftrightarrow>
     exclusive v \<and> list_all exclusive_tree (map snd (dict_fld v))
     \<and> list_all exclusive_tree (list_fld v)"
  by (cases v) simp

lemma exclusive_tree_new: "exclusive_tree new_Val"
  by (simp add: new_Val_def exclusive_def)

lemma exclusive_tree_reset: "exclusive_tree (reset v)"
  by (simp add: reset_def exclusive_def)

lemma exclusive_tree_set_dict: "exclusive_tree v \<Longrightarrow> exclusive_tree (set_dict v)"
  by (simp add: set_dict_def reset_def exclusive_def)

lemma exclusive_tree_set_list: "exclusive_tree v \<Longrightarrow> exclusive_tree (set_list v)"
  by (simp add: set_list_def reset_def exclusive_def)

lemma exclusive_tree_val_assign: "exclusive_tree v \<Longrightarrow> exclusive_tree (val_assign v s)"
  by (cases v) (simp add: val_assign_def exclusive_def)

lemma set_dict_flags: "is_dict_fld (set_dict v)" "exclusive v \<Longrightarrow> \<not> is_list_fld (set_dict v)"
  by (auto simp: set_dict_def reset_def exclusive_def)

lemma set_list_flags: "is_list_fld (set_list v)" "exclusive v \<Longrightarrow> \<not> is_dict_fld (set_list v)"
  by (auto simp: set_list_def reset_def exclusive_def)

lemma exclusive_tree_key_put:
  assumes "exclusive_tree v" "exclusive_tree c" "is_dict_fld v"
  shows "exclusive_tree (Val (map_put x c (dict_fld v)) (is_dict_fld v) (list_fld v)
           (is_list_fld v) (val_fld v))"
  using assms
  by (cases v) (auto simp: exclusive_def intro: list_all_map_put)

lemma exclusive_tree_key_slot: "exclusive_tree v \<Longrightarrow> exclusive_tree (key_slot v x)"
  unfolding key_slot_def key_slot_in_def
  by (rule exclusive_tree_key_put)
     (simp_all add: exclusive_tree_set_dict exclusive_tree_new set_dict_flags)

lemma key_slot_is_dict: "is_dict_fld (key_slot v x)"
  by (simp add: key_slot_def key_slot_in_def set_dict_flags)

lemma exclusive_tree_key_store:
  "exclusive_tree v \<Longrightarrow> exclusive_tree c \<Longrightarrow> exclusive_tree (key_store (key_slot v x) x c)"
  unfolding key_store_def
  by (rule exclusive_tree_key_put)
     (simp_all add: exclusive_tree_key_slot key_slot_is_dict)

lemma exclusive_tree_idx_put:
  assumes "exclusive_tree v" "list_all exclusive_tree l" "is_list_fld v"
  shows "exclusive_tree (Val (dict_fld v) (is_dict_fld v) l (is_list_fld v) (val_fld v))"
  using assms by (cases v) (auto simp: exclusive_def)

lemma exclusive_tree_children:
  "exclusive_tree v \<Longrightarrow> list_all exclusive_tree (list_fld v)"
  by (cases v) simp

lemma list_all_grow_loop:
  "list_all exclusive_tree l \<Longrightarrow> list_all exclusive_tree (grow_loop l i)"
  by (auto simp: grow_loop_eq exclusive_tree_new list_all_iff)

lemma exclusive_tree_idx_slot: "exclusive_tree v \<Longrightarrow> exclusive_tree (idx_slot v i)"
  unfolding idx_slot_def Let_def
  by (rule exclusive_tree_idx_put)
     (simp_all add: exclusive_tree_set_list set_list_flags list_all_grow_loop
        exclusive_tree_children)

lemma idx_slot_is_list: "is_list_fld (idx_slot v i)"
  by (simp add: idx_slot_def Let_def set_list_flags)

lemma exclusive_tree_idx_store:
  "exclusive_tree v \<Longrightarrow> exclusive_tree c \<Longrightarrow> exclusive_tree (idx_store (idx_slot v i) i c)"
  unfolding idx_store_def
  by (rule exclusive_tree_idx_put)
     (simp_all add: exclusive_tree_idx_slot idx_slot_is_list list_all_update
        exclusive_tree_children)

text \<open>
  Claim C5. The mutating key accessor puts a freshly constructed node into the slot of
  the key, whatever was stored there and whatever \<^verbatim>\<open>set_dict\<close> has left of the node:
  after the access, the slot of \<open>k\<close> holds \<open>new_Val\<close>. The first conjunct is about the
  body of the accessor on any node, the others about the accessor itself.
\<close>

theorem mutating_key_access_replaces_child:
  "map_find k (dict_fld (key_slot_in n' k)) = Some new_Val
   \<and> map_find k (dict_fld (key_slot n k)) = Some new_Val
   \<and> key_get (key_slot n k) k = new_Val
   \<and> key_get (key_slot (key_store (key_slot n k) k c) k) k = new_Val"
  by (simp add: key_slot_def key_slot_in_def key_get_def map_find_map_put_same)

lemma key_get_read: "key_get v x = referent (fst (key_read v x))"
  by (simp add: key_get_def key_read_def split: option.splits)

lemma idx_get_read: "idx_get v i = referent (fst (idx_read v i))"
  by (simp add: idx_get_def idx_read_def)

lemma key_slot_has_key: "map_find k (dict_fld (key_slot v k)) \<noteq> None"
  by (simp add: key_slot_def key_slot_in_def map_find_map_put_same)

lemma key_slot_changes:
  assumes "k \<notin> fst ` set (dict_fld v)"
  shows "key_slot v k \<noteq> v"
proof
  assume "key_slot v k = v"
  then have "map_find k (dict_fld v) \<noteq> None"
    using key_slot_has_key [of k v] by simp
  with assms show False
    by (simp add: map_find_def map_of_eq_None_iff)
qed

lemma idx_slot_length: "i < length (list_fld (idx_slot v i))"
  by (simp add: idx_slot_def Let_def grow_loop_eq)

lemma idx_slot_changes:
  assumes "length (list_fld v) \<le> i"
  shows "idx_slot v i \<noteq> v"
proof
  assume "idx_slot v i = v"
  then have "i < length (list_fld v)"
    using idx_slot_length [of i v] by simp
  with assms show False
    by simp
qed

text \<open>
  Claim C7. A read-only lookup of a key that has no entry, or of an index at or past the
  number of elements, returns a reference to the one static \<open>INVALID\<close> (the \<open>Sentinel\<close>, not
  a child that merely looks like it), which is a node with no entries, no elements, no
  text and neither flag. The node after the call is the node before it: the entries, the
  elements, both flags and the text are as they were, so the key still has no entry, the
  list is no longer, and no mode was switched. That holds for a hit as well (\<open>k'\<close> and \<open>i'\<close>
  are arbitrary). The last two conjuncts set the mutating accessors against this: on the
  same miss they do change the node.
\<close>

theorem readonly_miss_returns_INVALID:
  "(k \<notin> fst ` set (dict_fld n) \<longrightarrow>
      key_read n k = (Sentinel, n) \<and> key_get n k = INVALID
      \<and> k \<notin> fst ` set (dict_fld (snd (key_read n k)))
      \<and> is_dict_fld (snd (key_read n k)) = is_dict_fld n
      \<and> is_list_fld (snd (key_read n k)) = is_list_fld n)
   \<and> (length (list_fld n) \<le> i \<longrightarrow>
      idx_read n i = (Sentinel, n) \<and> idx_get n i = INVALID
      \<and> length (list_fld (snd (idx_read n i))) = length (list_fld n)
      \<and> is_dict_fld (snd (idx_read n i)) = is_dict_fld n
      \<and> is_list_fld (snd (idx_read n i)) = is_list_fld n)
   \<and> snd (key_read n k') = n \<and> snd (idx_read n i') = n
   \<and> key_get n k' = referent (fst (key_read n k'))
   \<and> idx_get n i' = referent (fst (idx_read n i'))
   \<and> referent Sentinel = INVALID
   \<and> INVALID = Val [] False [] False []
   \<and> (k \<notin> fst ` set (dict_fld n) \<longrightarrow> key_slot n k \<noteq> n)
   \<and> (length (list_fld n) \<le> i \<longrightarrow> idx_slot n i \<noteq> n)"
proof -
  have key: "key_read n k = (Sentinel, n)" "key_get n k = INVALID"
    if "k \<notin> fst ` set (dict_fld n)"
    using that
    by (simp_all add: key_read_def key_get_def map_find_def map_of_eq_None_iff [THEN iffD2])
  have idx: "idx_read n i = (Sentinel, n)" "idx_get n i = INVALID"
    if "length (list_fld n) \<le> i"
    using that by (simp_all add: idx_read_def idx_get_def)
  have frame: "snd (key_read n k') = n" "snd (idx_read n i') = n"
    by (simp_all add: key_read_def idx_read_def split: option.splits)
  have inv: "INVALID = Val [] False [] False []"
    by (simp add: INVALID_def new_Val_def)
  show ?thesis
    using key idx frame inv key_get_read [of n k'] idx_get_read [of n i']
      key_slot_changes [of k n] idx_slot_changes [of n i]
    by simp
qed

theorem readonly_miss_returns_INVALID_witness:
  "''b'' \<notin> fst ` set (dict_fld (Val [(''a'', Val [] False [] False ''1'')] True [] False []))
   \<and> key_read (Val [(''a'', Val [] False [] False ''1'')] True [] False []) ''b''
       = (Sentinel, Val [(''a'', Val [] False [] False ''1'')] True [] False [])
   \<and> key_get (Val [(''a'', Val [] False [] False ''1'')] True [] False []) ''b'' = INVALID
   \<and> key_slot (Val [(''a'', Val [] False [] False ''1'')] True [] False []) ''b''
       \<noteq> Val [(''a'', Val [] False [] False ''1'')] True [] False []
   \<and> length (list_fld (Val [] False [Val [] False [] False ''1''] True [])) \<le> 1
   \<and> idx_read (Val [] False [Val [] False [] False ''1''] True []) 1
       = (Sentinel, Val [] False [Val [] False [] False ''1''] True [])
   \<and> idx_get (Val [] False [Val [] False [] False ''1''] True []) 1 = INVALID
   \<and> idx_slot (Val [] False [Val [] False [] False ''1''] True []) 1
       \<noteq> Val [] False [Val [] False [] False ''1''] True []"
  using readonly_miss_returns_INVALID
          [of "''b''" "Val [(''a'', Val [] False [] False ''1'')] True [] False []" 0
              "''a''" 0]
        readonly_miss_returns_INVALID
          [of "''b''" "Val [] False [Val [] False [] False ''1''] True []" 1 "''a''" 0]
  by simp

section \<open>Parser: atoms\<close>

lemma NextNonWS_not_whitespace:
  "NextNonWS g = (t, g') \<Longrightarrow> type t \<noteq> WHITESPACE"
proof (induction g arbitrary: t g' rule: NextNonWS.induct)
  case (1 g)
  obtain r g1 where n: "Next g = (r, g1)" by (cases "Next g")
  show ?case
  proof (cases "type r = WHITESPACE")
    case True
    then have "NextNonWS g1 = (t, g')"
      using "1.prems" n by (simp add: NextNonWS.simps [of g])
    then show ?thesis
      using "1.IH" [OF n [symmetric] refl] True by simp
  next
    case False
    then have "t = r"
      using "1.prems" n by (simp add: NextNonWS.simps [of g])
    then show ?thesis
      using False by simp
  qed
qed

text \<open>
  Claim C3, as the code has it. Where a value is expected and the next token is neither
  \<^verbatim>\<open>{\<close> nor \<^verbatim>\<open>[\<close>, the parser fails exactly for a \<^verbatim>\<open>MALFORMED\<close> token, with the message
  for the expected \<^verbatim>\<open>!MALFORMED\<close>; for every other token (\<^verbatim>\<open>STRING\<close>, \<^verbatim>\<open>WORD\<close>, and also
  \<^verbatim>\<open>SYMBOL\<close>: a colon, a comma, a closing brace or bracket) it returns a Scalar that holds
  the text of the token.
\<close>

theorem atom_fails_only_when_malformed:
  "NextNonWS g = (tok, g1) \<Longrightarrow> \<not> tok_eq tok ''{'' \<Longrightarrow> \<not> tok_eq tok ''['' \<Longrightarrow>
     type tok \<noteq> WHITESPACE
     \<and> read_val g =
         (if type tok = MALFORMED then Inl (fn_err tok ''!MALFORMED'')
          else Inr (Val [] False [] False (span tok), g1))"
  using NextNonWS_not_whitespace [of g tok g1]
  by (simp add: read_val.simps [of g] fn_is_expected_def val_assign_def new_Val_def str_def)

theorem atom_fails_only_when_malformed_witness:
  "NextNonWS (TokenGen_init '']'')
     = (\<lparr>span = '']'', line_num = 1, line_pos = 1, type = SYMBOL\<rparr>,
        \<lparr>rest = [], gen_line_num = 1, gen_line_pos = 2\<rparr>)
   \<and> \<not> tok_eq \<lparr>span = '']'', line_num = 1, line_pos = 1, type = SYMBOL\<rparr> ''{''
   \<and> \<not> tok_eq \<lparr>span = '']'', line_num = 1, line_pos = 1, type = SYMBOL\<rparr> ''[''
   \<and> read_val (TokenGen_init '']'')
       = Inr (Val [] False [] False '']'', \<lparr>rest = [], gen_line_num = 1, gen_line_pos = 2\<rparr>)"
proof -
  have n: "NextNonWS (TokenGen_init '']'')
     = (\<lparr>span = '']'', line_num = 1, line_pos = 1, type = SYMBOL\<rparr>,
        \<lparr>rest = [], gen_line_num = 1, gen_line_pos = 2\<rparr>)"
    by code_simp
  have a: "\<not> tok_eq \<lparr>span = '']'', line_num = 1, line_pos = 1, type = SYMBOL\<rparr> ''{''"
    by (simp add: tok_eq_def)
  have b: "\<not> tok_eq \<lparr>span = '']'', line_num = 1, line_pos = 1, type = SYMBOL\<rparr> ''[''"
    by (simp add: tok_eq_def)
  show ?thesis
    using n a b atom_fails_only_when_malformed [OF n a b] by simp
qed

theorem symbol_atom_is_accepted:
  "fst (NextNonWS (TokenGen_init '':''))
     = \<lparr>span = '':'', line_num = 1, line_pos = 1, type = SYMBOL\<rparr>
   \<and> read_range '':'' [] = (Some (Val [] False [] False '':''), [])"
  by code_simp

section \<open>Parser: unfolding and induction\<close>

lemma read_val_unfold:
  assumes "NextNonWS g = (tok, g1)" "NextNonWS g1 = (peek, pg)"
  shows "read_val g =
     (if tok_eq tok ''{'' then
        (if tok_eq peek ''}'' then Inr (set_dict new_Val, pg)
         else read_dict_loop (set_dict new_Val) g1)
      else if tok_eq tok ''['' then
        (if tok_eq peek '']'' then Inr (set_list new_Val, pg)
         else read_list_loop (set_list new_Val) 0 g1)
      else if type tok = MALFORMED then Inl (fn_err tok ''!MALFORMED'')
      else Inr (val_assign new_Val (str tok), g1))"
  using assms by (simp add: read_val.simps [of g] fn_is_expected_def)

lemma read_dict_loop_unfold:
  assumes "NextNonWS g = (k, g1)" "NextNonWS g1 = (colon, g2)"
  shows "read_dict_loop cur g =
     (if type k \<noteq> STRING then Inl (fn_err k ''STRING'')
      else if \<not> tok_eq colon '':'' then Inl (fn_err colon ([dquote] @ '':'' @ [dquote]))
      else (case read_val g2 of
              Inl err \<Rightarrow> Inl err
            | Inr (v, g3) \<Rightarrow>
                (case NextNonWS g3 of (comma, g4) \<Rightarrow>
                   if tok_eq comma ''}''
                   then Inr (key_store (key_slot cur (key_of k)) (key_of k) v, g4)
                   else if \<not> tok_eq comma '',''
                   then Inl (fn_err comma ([dquote] @ '','' @ [dquote]))
                   else read_dict_loop (key_store (key_slot cur (key_of k)) (key_of k) v) g4)))"
  using assms
  by (simp add: read_dict_loop.simps [of cur g] fn_is_expected_def key_of_def Let_def
      split: sum.splits prod.splits)

lemma read_list_loop_unfold:
  "read_list_loop cur i g =
     (case read_val g of
        Inl err \<Rightarrow> Inl err
      | Inr (v, g3) \<Rightarrow>
          (case NextNonWS g3 of (comma, g4) \<Rightarrow>
             if tok_eq comma '']''
             then Inr (idx_store (idx_slot cur i) i v, g4)
             else if \<not> tok_eq comma '',''
             then Inl (fn_err comma ([dquote] @ '','' @ [dquote]))
             else read_list_loop (idx_store (idx_slot cur i) i v) (i + 1) g4))"
  by (simp add: read_list_loop.simps [of cur i g] fn_is_expected_def Let_def
      split: sum.splits prod.splits)

lemma read_induct [case_names val dict list]:
  assumes val: "\<And>g.
      (\<And>tok g1 peek pg. NextNonWS g = (tok, g1) \<Longrightarrow> tok_eq tok ''{'' \<Longrightarrow>
         NextNonWS g1 = (peek, pg) \<Longrightarrow> \<not> tok_eq peek ''}'' \<Longrightarrow> Q (set_dict new_Val) g1) \<Longrightarrow>
      (\<And>tok g1 peek pg. NextNonWS g = (tok, g1) \<Longrightarrow> \<not> tok_eq tok ''{'' \<Longrightarrow> tok_eq tok ''['' \<Longrightarrow>
         NextNonWS g1 = (peek, pg) \<Longrightarrow> \<not> tok_eq peek '']'' \<Longrightarrow> R (set_list new_Val) 0 g1) \<Longrightarrow>
      P g"
    and dict: "\<And>cur g.
      (\<And>k g1 colon g2. NextNonWS g = (k, g1) \<Longrightarrow> type k = STRING \<Longrightarrow>
         NextNonWS g1 = (colon, g2) \<Longrightarrow> tok_eq colon '':'' \<Longrightarrow> P g2) \<Longrightarrow>
      (\<And>k g1 colon g2 v g3 comma g4. NextNonWS g = (k, g1) \<Longrightarrow> type k = STRING \<Longrightarrow>
         NextNonWS g1 = (colon, g2) \<Longrightarrow> tok_eq colon '':'' \<Longrightarrow>
         read_val g2 = Inr (v, g3) \<Longrightarrow> NextNonWS g3 = (comma, g4) \<Longrightarrow>
         \<not> tok_eq comma ''}'' \<Longrightarrow> tok_eq comma '','' \<Longrightarrow>
         Q (key_store (key_slot cur (key_of k)) (key_of k) v) g4) \<Longrightarrow>
      Q cur g"
    and list: "\<And>cur i g.
      P g \<Longrightarrow>
      (\<And>v g3 comma g4. read_val g = Inr (v, g3) \<Longrightarrow> NextNonWS g3 = (comma, g4) \<Longrightarrow>
         \<not> tok_eq comma '']'' \<Longrightarrow> tok_eq comma '','' \<Longrightarrow>
         R (idx_store (idx_slot cur i) i v) (i + 1) g4) \<Longrightarrow>
      R cur i g"
  shows "P g0" and "Q cur0 g0" and "R cur0 i0 g0"
proof (induction g0 and cur0 g0 and cur0 i0 g0 rule: read_val_read_dict_loop_read_list_loop.induct)
  case (1 g)
  show ?case
  proof (rule val)
    fix tok g1 peek pg
    assume a: "NextNonWS g = (tok, g1)" "tok_eq tok ''{''" "NextNonWS g1 = (peek, pg)"
      "\<not> tok_eq peek ''}''"
    show "Q (set_dict new_Val) g1"
      using "1.IH"(1) [OF refl a(1) [symmetric] a(2) refl refl a(3) [symmetric] a(4)] .
  next
    fix tok g1 peek pg
    assume a: "NextNonWS g = (tok, g1)" "\<not> tok_eq tok ''{''" "tok_eq tok ''[''"
      "NextNonWS g1 = (peek, pg)" "\<not> tok_eq peek '']''"
    show "R (set_list new_Val) 0 g1"
      using "1.IH"(2) [OF refl a(1) [symmetric] a(2) a(3) refl refl a(4) [symmetric] a(5)] .
  qed
next
  case (2 cur g)
  show ?case
  proof (rule dict)
    fix k g1 colon g2
    assume a: "NextNonWS g = (k, g1)" "type k = STRING" "NextNonWS g1 = (colon, g2)"
      "tok_eq colon '':''"
    have ty: "\<not> type k \<noteq> STRING" using a(2) by simp
    have ex: "fn_is_expected colon (Some '':'') = None"
      using a(4) by (simp add: fn_is_expected_Some)
    show "P g2"
      using "2.IH"(1) [OF refl a(1) [symmetric] ty refl a(3) [symmetric] ex] .
  next
    fix k g1 colon g2 v g3 comma g4
    assume a: "NextNonWS g = (k, g1)" "type k = STRING" "NextNonWS g1 = (colon, g2)"
      "tok_eq colon '':''" "read_val g2 = Inr (v, g3)" "NextNonWS g3 = (comma, g4)"
      "\<not> tok_eq comma ''}''" "tok_eq comma '',''"
    have ty: "\<not> type k \<noteq> STRING" using a(2) by simp
    have ex: "fn_is_expected colon (Some '':'') = None"
      using a(4) by (simp add: fn_is_expected_Some)
    have ex2: "fn_is_expected comma (Some '','') = None"
      using a(8) by (simp add: fn_is_expected_Some)
    have kn: "key_of k = (case unescape (str k) of None \<Rightarrow> [] | Some s \<Rightarrow> s)"
      by (simp add: key_of_def)
    show "Q (key_store (key_slot cur (key_of k)) (key_of k) v) g4"
      using "2.IH"(2) [OF refl a(1) [symmetric] ty refl a(3) [symmetric] ex a(5) refl
          kn refl refl a(6) [symmetric] a(7) ex2] .
  qed
next
  case (3 cur i g)
  show ?case
  proof (rule list)
    show "P g" by (rule "3.IH"(1))
  next
    fix v g3 comma g4
    assume a: "read_val g = Inr (v, g3)" "NextNonWS g3 = (comma, g4)"
      "\<not> tok_eq comma '']''" "tok_eq comma '',''"
    have ex2: "fn_is_expected comma (Some '','') = None"
      using a(4) by (simp add: fn_is_expected_Some)
    show "R (idx_store (idx_slot cur i) i v) (i + 1) g4"
      using "3.IH"(2) [OF a(1) refl refl refl a(2) [symmetric] a(3) ex2] .
  qed
qed

section \<open>Writer and parser: trees that do not come back\<close>

text \<open>
  Claim C1 as stated fails, and each of these trees but the last is one that a caller
  builds with the accessors:
  \<^item> a node that holds no text, as a default construction or the growth of an array
    leaves it: it is written as the empty text, which does not parse;
  \<^item> a Scalar whose text is more than one token: the text is written as it is and only
    its first token is read back;
  \<^item> a Scalar whose text is the opening bracket: what is written is an array that does
    not end;
  \<^item> an Array whose first element is the Scalar \<^verbatim>\<open>]\<close>: the element is read as the end of
    an empty array, which is written as \<^verbatim>\<open>[]\<close>;
  \<^item> a base indentation that is not made of blanks, for a tree with children: the
    indentation is written in front of the closing bracket and of every child, and is
    read as a token;
  \<^item> an Object whose entries do not stand in the order in which the parser's insertions
    leave them. In this model such a node does not arise from the accessors (\<open>map_put\<close>
    keeps the key order of section 3); it is what a container with another iteration
    order would hold, and it shows that the round trip rests on that order.
\<close>

theorem write_read_write_counterexample:
  "built new_Val
   \<and> write_val new_Val [] = []
   \<and> read_range (write_val new_Val []) []
       = (None, ''Error: L1:1: Expected !MALFORMED, got: '' @ [dquote, dquote] @ ''.'')
   \<and> built (val_assign new_Val ''a b'')
   \<and> read_range (write_val (val_assign new_Val ''a b'') []) []
       = (Some (val_assign new_Val ''a''), [])
   \<and> write_val (val_assign new_Val ''a'') [] \<noteq> write_val (val_assign new_Val ''a b'') []
   \<and> built (val_assign new_Val ''['')
   \<and> read_range (write_val (val_assign new_Val ''['') []) []
       = (None, ''Error: L1:2: Expected !MALFORMED, got: '' @ [dquote, dquote] @ ''.'')
   \<and> built (idx_store (idx_slot new_Val 0) 0 (val_assign new_Val '']''))
   \<and> read_range (write_val (idx_store (idx_slot new_Val 0) 0 (val_assign new_Val '']'')) []) []
       = (Some (set_list new_Val), [])
   \<and> write_val (set_list new_Val) []
       \<noteq> write_val (idx_store (idx_slot new_Val 0) 0 (val_assign new_Val '']'')) []
   \<and> built (idx_store (idx_slot new_Val 0) 0 (val_assign new_Val ''1''))
   \<and> read_range (write_val (idx_store (idx_slot new_Val 0) 0 (val_assign new_Val ''1'')) ''x'') []
       = (None, ''Error: L2:5: Expected '' @ [dquote] @ '','' @ [dquote] @ '', got: ''
                @ [dquote] @ ''1'' @ [dquote] @ ''.'')
   \<and> read_range (write_val (Val [(''b'', Val [] False [] False ''1''),
                                 (''a'', Val [] False [] False ''2'')] True [] False []) []) []
       = (Some (Val [(''a'', Val [] False [] False ''2''),
                     (''b'', Val [] False [] False ''1'')] True [] False []), [])
   \<and> write_val (Val [(''a'', Val [] False [] False ''2''),
                     (''b'', Val [] False [] False ''1'')] True [] False []) []
       \<noteq> write_val (Val [(''b'', Val [] False [] False ''1''),
                         (''a'', Val [] False [] False ''2'')] True [] False []) []"
proof -
  have b: "built new_Val" "built (val_assign new_Val ''a b'')" "built (val_assign new_Val ''['')"
    "built (idx_store (idx_slot new_Val 0) 0 (val_assign new_Val '']''))"
    "built (idx_store (idx_slot new_Val 0) 0 (val_assign new_Val ''1''))"
    by (intro built_idx_store built_val built_new)+
  have c1: "write_val new_Val [] = []"
    by code_simp
  have c2: "read_range (write_val new_Val []) []
       = (None, ''Error: L1:1: Expected !MALFORMED, got: '' @ [dquote, dquote] @ ''.'')"
    by code_simp
  have c3: "read_range (write_val (val_assign new_Val ''a b'') []) []
       = (Some (val_assign new_Val ''a''), [])"
    by code_simp
  have c4: "write_val (val_assign new_Val ''a'') [] \<noteq> write_val (val_assign new_Val ''a b'') []"
    by code_simp
  have c5: "read_range (write_val (val_assign new_Val ''['') []) []
       = (None, ''Error: L1:2: Expected !MALFORMED, got: '' @ [dquote, dquote] @ ''.'')"
    by code_simp
  have c6: "read_range (write_val (idx_store (idx_slot new_Val 0) 0 (val_assign new_Val '']'')) []) []
       = (Some (set_list new_Val), [])"
    by code_simp
  have c7: "write_val (set_list new_Val) []
       \<noteq> write_val (idx_store (idx_slot new_Val 0) 0 (val_assign new_Val '']'')) []"
    by code_simp
  have c8: "read_range (write_val (idx_store (idx_slot new_Val 0) 0 (val_assign new_Val ''1'')) ''x'') []
       = (None, ''Error: L2:5: Expected '' @ [dquote] @ '','' @ [dquote] @ '', got: ''
                @ [dquote] @ ''1'' @ [dquote] @ ''.'')"
    by code_simp
  have c9: "read_range (write_val (Val [(''b'', Val [] False [] False ''1''),
                                 (''a'', Val [] False [] False ''2'')] True [] False []) []) []
       = (Some (Val [(''a'', Val [] False [] False ''2''),
                     (''b'', Val [] False [] False ''1'')] True [] False []), [])"
    by code_simp
  have c10: "write_val (Val [(''a'', Val [] False [] False ''2''),
                     (''b'', Val [] False [] False ''1'')] True [] False []) []
       \<noteq> write_val (Val [(''b'', Val [] False [] False ''1''),
                         (''a'', Val [] False [] False ''2'')] True [] False []) []"
    by code_simp
  show ?thesis
    by (intro conjI b c1 c2 c3 c4 c5 c6 c7 c8 c9 c10)
qed

section \<open>Tokenizer: the token at the cursor\<close>

lemma classify_bounds:
  "classify s = (ty, n) \<Longrightarrow> n \<le> length s \<and> (ty \<noteq> MALFORMED \<longrightarrow> 0 < n)"
  by (auto simp: classify_def split: option.splits dest: regex_bounds)

lemma Next_classify:
  "Next g = (case classify (rest g) of (ty, n) \<Rightarrow> token_at g ty n)"
  by (auto simp: Next_def Let_def classify_def token_at_def next_token_from_regex_def
      meta_token_def min_absorb2 split: option.splits dest: regex_bounds)

lemma takeWhile_stable:
  assumes "length (takeWhile P s) < length s \<or> r = [] \<or> \<not> P (hd r)"
  shows "takeWhile P (s @ r) = takeWhile P s"
proof (cases "\<forall>x\<in>set s. P x")
  case True
  have tws: "takeWhile P s = s"
    using True by (rule takeWhile_eq_all_conv [THEN iffD2])
  have "\<not> length (takeWhile P s) < length s"
    unfolding tws by simp
  then have "r = [] \<or> \<not> P (hd r)"
    using assms by blast
  then have "takeWhile P r = []"
    by (cases r) auto
  then have "takeWhile P (s @ r) = s"
    using True by (simp add: takeWhile_append2)
  then show ?thesis
    unfolding tws .
next
  case False
  then show ?thesis
    by (auto simp: takeWhile_append1)
qed

lemma string_body_append:
  "string_body s = Some n \<Longrightarrow> string_body (s @ r) = Some n"
proof (induction s arbitrary: n rule: string_body.induct)
  case 1
  then show ?case by simp
next
  case (2 c)
  then show ?case by (cases r) (auto split: if_splits)
next
  case (3 c d ds)
  then show ?case by (auto split: if_splits)
qed

lemma not_word_dquote: "\<not> is_word_char dquote"
  by (simp add: is_word_char_def dquote_def)

lemma not_symbol_dquote: "\<not> is_symbol_char dquote"
  by (simp add: is_symbol_char_def dquote_def)

lemma RE_WHITESPACE_append:
  "RE_WHITESPACE s = Some n \<Longrightarrow> n < length s \<or> r = [] \<or> \<not> is_ws_char (hd r) \<Longrightarrow>
   RE_WHITESPACE (s @ r) = Some n"
  using takeWhile_stable [of is_ws_char s r]
  by (auto simp: RE_WHITESPACE_def Let_def split: if_splits)

lemma RE_WORD_append:
  "RE_WORD s = Some n \<Longrightarrow> n < length s \<or> r = [] \<or> \<not> is_word_char (hd r) \<Longrightarrow>
   RE_WORD (s @ r) = Some n"
  using takeWhile_stable [of is_word_char s r]
  by (auto simp: RE_WORD_def Let_def split: if_splits)

lemma RE_WHITESPACE_None_append:
  "RE_WHITESPACE s = None \<Longrightarrow> s \<noteq> [] \<Longrightarrow> RE_WHITESPACE (s @ r) = None"
  by (cases s) (auto simp: RE_WHITESPACE_def Let_def split: if_splits)

lemma RE_WORD_None_append:
  "RE_WORD s = None \<Longrightarrow> s \<noteq> [] \<Longrightarrow> RE_WORD (s @ r) = None"
  by (cases s) (auto simp: RE_WORD_def Let_def split: if_splits)

lemma RE_SYMBOL_append:
  "s \<noteq> [] \<Longrightarrow> RE_SYMBOL (s @ r) = RE_SYMBOL s"
  by (cases s) (auto simp: RE_SYMBOL_def)

lemma RE_STRING_append:
  "RE_STRING s = Some n \<Longrightarrow> RE_STRING (s @ r) = Some n"
  by (cases s) (auto simp: RE_STRING_def string_body_append split: if_splits)

lemma RE_STRING_None_append:
  "s \<noteq> [] \<Longrightarrow> hd s \<noteq> dquote \<Longrightarrow> RE_STRING (s @ r) = None"
  by (cases s) (auto simp: RE_STRING_def)

lemma RE_WORD_hd: "RE_WORD s = Some n \<Longrightarrow> s \<noteq> [] \<and> is_word_char (hd s)"
  by (cases s) (auto simp: RE_WORD_def Let_def split: if_splits)

lemma RE_SYMBOL_hd: "RE_SYMBOL s = Some n \<Longrightarrow> s \<noteq> [] \<and> is_symbol_char (hd s) \<and> n = 1"
  by (cases s) (auto simp: RE_SYMBOL_def split: if_splits)

lemma classify_append:
  assumes c: "classify s = (ty, n)" and ty: "ty \<noteq> MALFORMED"
    and b: "n < length s \<or> r = []
            \<or> (ty = WHITESPACE \<longrightarrow> \<not> is_ws_char (hd r)) \<and> (ty = WORD \<longrightarrow> \<not> is_word_char (hd r))"
  shows "classify (s @ r) = (ty, n)"
proof -
  have ne: "s \<noteq> []"
    using classify_bounds [OF c] ty by auto
  show ?thesis
  proof (cases "RE_WHITESPACE s")
    case (Some m)
    then have e: "ty = WHITESPACE" "n = m"
      using c by (simp_all add: classify_def)
    then have "RE_WHITESPACE (s @ r) = Some n"
      using Some b by (intro RE_WHITESPACE_append) auto
    then show ?thesis
      using e by (simp add: classify_def)
  next
    case ws: None
    note w = RE_WHITESPACE_None_append [OF ws ne, of r]
    show ?thesis
    proof (cases "RE_STRING s")
      case (Some m)
      then have e: "ty = STRING" "n = m"
        using c ws by (simp_all add: classify_def)
      then show ?thesis
        using w RE_STRING_append [OF Some, of r] by (simp add: classify_def)
    next
      case st: None
      show ?thesis
      proof (cases "RE_WORD s")
        case (Some m)
        then have e: "ty = WORD" "n = m"
          using c ws st by (simp_all add: classify_def)
        have "hd s \<noteq> dquote"
          using RE_WORD_hd [OF Some] not_word_dquote by auto
        then have s': "RE_STRING (s @ r) = None"
          using ne by (rule RE_STRING_None_append [rotated])
        have "RE_WORD (s @ r) = Some n"
          using Some b e by (intro RE_WORD_append) auto
        then show ?thesis
          using e w s' by (simp add: classify_def)
      next
        case wd: None
        show ?thesis
        proof (cases "RE_SYMBOL s")
          case (Some m)
          then have e: "ty = SYMBOL" "n = m"
            using c ws st wd by (simp_all add: classify_def)
          have "hd s \<noteq> dquote"
            using RE_SYMBOL_hd [OF Some] not_symbol_dquote by auto
          then have s': "RE_STRING (s @ r) = None"
            using ne by (rule RE_STRING_None_append [rotated])
          show ?thesis
            using e w s' RE_WORD_None_append [OF wd ne, of r] RE_SYMBOL_append [OF ne, of r] Some
            by (simp add: classify_def)
        next
          case None
          then show ?thesis
            using c ws st wd ty by (simp add: classify_def)
        qed
      qed
    qed
  qed
qed

lemma rest_more [simp]: "rest (more g r) = rest g @ r"
  by (simp add: more_def)

lemma more_Nil [simp]: "more g [] = g"
  by (simp add: more_def)

lemma token_at_more:
  "n \<le> length (rest g) \<Longrightarrow>
   token_at (more g r) ty n = (fst (token_at g ty n), more (snd (token_at g ty n)) r)"
  by (simp add: token_at_def more_def)

lemma Next_more:
  assumes n: "Next g = (t, g1)" and ty: "type t \<noteq> MALFORMED"
    and b: "rest g1 \<noteq> [] \<or> r = []
            \<or> (type t = WHITESPACE \<longrightarrow> \<not> is_ws_char (hd r))
              \<and> (type t = WORD \<longrightarrow> \<not> is_word_char (hd r))"
  shows "Next (more g r) = (t, more g1 r)"
proof -
  obtain ty' m where c: "classify (rest g) = (ty', m)"
    by (cases "classify (rest g)")
  have tg: "token_at g ty' m = (t, g1)"
    using n c by (simp add: Next_classify)
  have le: "m \<le> length (rest g)"
    using classify_bounds [OF c] by simp
  have t: "type t = ty'" and r1: "rest g1 = drop m (rest g)"
    using tg by (auto simp: token_at_def)
  have "m < length (rest g) \<or> r = []
        \<or> (ty' = WHITESPACE \<longrightarrow> \<not> is_ws_char (hd r)) \<and> (ty' = WORD \<longrightarrow> \<not> is_word_char (hd r))"
    using b t r1 le by auto
  then have "classify (rest g @ r) = (ty', m)"
    using c ty t by (intro classify_append) auto
  then have "Next (more g r) = token_at (more g r) ty' m"
    by (simp add: Next_classify)
  then show ?thesis
    using token_at_more [OF le, of r ty'] tg by simp
qed

section \<open>Parser: the shape of a successful read\<close>

lemma read_val_InrE [consumes 1, case_names empty_dict dict empty_list list atom]:
  assumes "read_val g = Inr (v, g')"
  obtains
    (empty_dict) tok g1 peek where "NextNonWS g = (tok, g1)" "tok_eq tok ''{''"
      "NextNonWS g1 = (peek, g')" "tok_eq peek ''}''" "v = set_dict new_Val"
  | (dict) tok g1 peek pg where "NextNonWS g = (tok, g1)" "tok_eq tok ''{''"
      "NextNonWS g1 = (peek, pg)" "\<not> tok_eq peek ''}''"
      "read_dict_loop (set_dict new_Val) g1 = Inr (v, g')"
  | (empty_list) tok g1 peek where "NextNonWS g = (tok, g1)" "\<not> tok_eq tok ''{''"
      "tok_eq tok ''[''" "NextNonWS g1 = (peek, g')" "tok_eq peek '']''" "v = set_list new_Val"
  | (list) tok g1 peek pg where "NextNonWS g = (tok, g1)" "\<not> tok_eq tok ''{''"
      "tok_eq tok ''[''" "NextNonWS g1 = (peek, pg)" "\<not> tok_eq peek '']''"
      "read_list_loop (set_list new_Val) 0 g1 = Inr (v, g')"
  | (atom) tok where "NextNonWS g = (tok, g')" "\<not> tok_eq tok ''{''" "\<not> tok_eq tok ''[''"
      "type tok \<noteq> MALFORMED" "v = val_assign new_Val (str tok)"
proof -
  obtain tok g1 where t: "NextNonWS g = (tok, g1)" by (cases "NextNonWS g")
  obtain peek pg where p: "NextNonWS g1 = (peek, pg)" by (cases "NextNonWS g1")
  note u = read_val_unfold [OF t p]
  consider "tok_eq tok ''{''" "tok_eq peek ''}''"
    | "tok_eq tok ''{''" "\<not> tok_eq peek ''}''"
    | "\<not> tok_eq tok ''{''" "tok_eq tok ''[''" "tok_eq peek '']''"
    | "\<not> tok_eq tok ''{''" "tok_eq tok ''[''" "\<not> tok_eq peek '']''"
    | "\<not> tok_eq tok ''{''" "\<not> tok_eq tok ''[''"
    by blast
  then show ?thesis
  proof cases
    case 1
    then show ?thesis using assms u t p empty_dict by simp
  next
    case 2
    then show ?thesis using assms u t p dict by simp
  next
    case 3
    then show ?thesis using assms u t p empty_list by simp
  next
    case 4
    then show ?thesis using assms u t p list by simp
  next
    case 5
    then show ?thesis using assms u t atom by (simp split: if_splits)
  qed
qed

lemma read_dict_loop_InrE [consumes 1, case_names last_entry entry]:
  assumes "read_dict_loop cur g = Inr (v, g')"
  obtains
    (last_entry) k g1 colon g2 w g3 comma where "NextNonWS g = (k, g1)" "type k = STRING"
      "NextNonWS g1 = (colon, g2)" "tok_eq colon '':''" "read_val g2 = Inr (w, g3)"
      "NextNonWS g3 = (comma, g')" "tok_eq comma ''}''"
      "v = key_store (key_slot cur (key_of k)) (key_of k) w"
  | (entry) k g1 colon g2 w g3 comma g4 where "NextNonWS g = (k, g1)" "type k = STRING"
      "NextNonWS g1 = (colon, g2)" "tok_eq colon '':''" "read_val g2 = Inr (w, g3)"
      "NextNonWS g3 = (comma, g4)" "\<not> tok_eq comma ''}''" "tok_eq comma '',''"
      "read_dict_loop (key_store (key_slot cur (key_of k)) (key_of k) w) g4 = Inr (v, g')"
proof -
  obtain k g1 where k: "NextNonWS g = (k, g1)" by (cases "NextNonWS g")
  obtain colon g2 where c: "NextNonWS g1 = (colon, g2)" by (cases "NextNonWS g1")
  note u = read_dict_loop_unfold [OF k c, of cur]
  have ty: "type k = STRING"
    using assms u by (auto split: if_splits)
  have col: "tok_eq colon '':''"
    using assms u ty by (auto split: if_splits)
  obtain w g3 where w: "read_val g2 = Inr (w, g3)"
    using assms u ty col by (auto split: sum.splits)
  obtain comma g4 where m: "NextNonWS g3 = (comma, g4)" by (cases "NextNonWS g3")
  show ?thesis
  proof (cases "tok_eq comma ''}''")
    case True
    then show ?thesis
      using assms u ty col w m k c last_entry by simp
  next
    case False
    then have "tok_eq comma '',''"
      using assms u ty col w m by (auto split: if_splits)
    then show ?thesis
      using assms u ty col w m k c False entry by simp
  qed
qed

lemma read_list_loop_InrE [consumes 1, case_names last_element element]:
  assumes "read_list_loop cur i g = Inr (v, g')"
  obtains
    (last_element) w g3 comma where "read_val g = Inr (w, g3)"
      "NextNonWS g3 = (comma, g')" "tok_eq comma '']''"
      "v = idx_store (idx_slot cur i) i w"
  | (element) w g3 comma g4 where "read_val g = Inr (w, g3)"
      "NextNonWS g3 = (comma, g4)" "\<not> tok_eq comma '']''" "tok_eq comma '',''"
      "read_list_loop (idx_store (idx_slot cur i) i w) (i + 1) g4 = Inr (v, g')"
proof -
  note u = read_list_loop_unfold [of cur i g]
  obtain w g3 where w: "read_val g = Inr (w, g3)"
    using assms u by (auto split: sum.splits)
  obtain comma g4 where m: "NextNonWS g3 = (comma, g4)" by (cases "NextNonWS g3")
  show ?thesis
  proof (cases "tok_eq comma '']''")
    case True
    then show ?thesis
      using assms u w m last_element by simp
  next
    case False
    then have "tok_eq comma '',''"
      using assms u w m by (auto split: if_splits)
    then show ?thesis
      using assms u w m False element by simp
  qed
qed

section \<open>Tokenizer: tokens and the text behind them\<close>

lemma Next_span_nonempty:
  "Next g = (t, g1) \<Longrightarrow> type t \<noteq> MALFORMED \<Longrightarrow> span t \<noteq> []"
proof -
  assume n: "Next g = (t, g1)" and ty: "type t \<noteq> MALFORMED"
  obtain ty' m where c: "classify (rest g) = (ty', m)"
    by (cases "classify (rest g)")
  have "token_at g ty' m = (t, g1)"
    using n c by (simp add: Next_classify)
  then have "type t = ty'" "span t = take m (rest g)"
    by (auto simp: token_at_def)
  then show ?thesis
    using classify_bounds [OF c] ty by auto
qed

lemma NextNonWS_is_Next:
  "NextNonWS g = (t, g1) \<Longrightarrow> \<exists>g0. Next g0 = (t, g1)"
proof (induction g arbitrary: t g1 rule: NextNonWS.induct)
  case (1 g)
  obtain x g2 where n: "Next g = (x, g2)" by (cases "Next g")
  show ?case
  proof (cases "type x = WHITESPACE")
    case True
    then have "NextNonWS g2 = (t, g1)"
      using "1.prems" n by (simp add: NextNonWS.simps [of g])
    then show ?thesis
      using "1.IH" [OF n [symmetric] refl] True by simp
  next
    case False
    then have "(x, g2) = (t, g1)"
      using "1.prems" n by (simp add: NextNonWS.simps [of g])
    then show ?thesis
      using n by blast
  qed
qed

lemma NextNonWS_span_nonempty:
  "NextNonWS g = (t, g1) \<Longrightarrow> type t \<noteq> MALFORMED \<Longrightarrow> span t \<noteq> []"
  using NextNonWS_is_Next Next_span_nonempty by blast

lemma NextNonWS_rest_nonempty:
  "NextNonWS g = (t, g1) \<Longrightarrow> span t \<noteq> [] \<Longrightarrow> rest g \<noteq> []"
  using NextNonWS_le [of g t g1] by auto

lemma symbol_char_other:
  "is_symbol_char c \<Longrightarrow> \<not> is_ws_char c \<and> \<not> is_word_char c \<and> c \<noteq> dquote"
  by (auto simp: is_symbol_char_def is_ws_char_def is_word_char_def dquote_def tab_def
      newline_def carriage_return_def)

lemma classify_hd:
  assumes "classify s = (ty, n)"
  shows "ty = WHITESPACE \<longrightarrow> is_ws_char (hd s)"
    and "ty = STRING \<longrightarrow> hd s = dquote"
    and "ty = WORD \<longrightarrow> is_word_char (hd s)"
    and "ty = SYMBOL \<longrightarrow> is_symbol_char (hd s)"
    and "ty = MALFORMED \<longrightarrow> s = [] \<or> \<not> is_symbol_char (hd s)"
  using assms
  by (cases s; auto simp: classify_def RE_WHITESPACE_def RE_STRING_def RE_WORD_def
      RE_SYMBOL_def Let_def split: option.splits if_splits)+

lemma Next_symbol:
  assumes n: "Next g = (t, g1)" and s: "span t = [c]" and c: "is_symbol_char c"
  shows "type t = SYMBOL"
proof -
  obtain ty' m where cl: "classify (rest g) = (ty', m)"
    by (cases "classify (rest g)")
  have "token_at g ty' m = (t, g1)"
    using n cl by (simp add: Next_classify)
  then have t: "type t = ty'" "span t = take m (rest g)"
    by (auto simp: token_at_def)
  have tk: "take m (rest g) = [c]"
    using s t(2) by simp
  have ne: "rest g \<noteq> []"
    using tk by auto
  have hd: "hd (rest g) = c"
    using tk by (cases "rest g"; cases m) auto
  show ?thesis
    using classify_hd [OF cl] ne hd c symbol_char_other [OF c] t(1)
    by (cases ty') auto
qed

lemma NextNonWS_symbol:
  "NextNonWS g = (t, g1) \<Longrightarrow> tok_eq t [c] \<Longrightarrow> is_symbol_char c \<Longrightarrow> type t = SYMBOL"
  using NextNonWS_is_Next [of g t g1] Next_symbol [of _ t g1 c]
  by (auto simp: tok_eq_span)

lemma symbol_chars:
  "is_symbol_char (CHR ''{'')" "is_symbol_char (CHR ''}'')" "is_symbol_char (CHR ''['')"
  "is_symbol_char (CHR '']'')" "is_symbol_char (CHR '':'')" "is_symbol_char (CHR '','')"
  by (simp_all add: is_symbol_char_def)

lemma NextNonWS_more:
  assumes "NextNonWS g = (t, g1)" and "type t \<noteq> MALFORMED"
    and "rest g1 \<noteq> [] \<or> r = [] \<or> type t \<noteq> WORD \<or> \<not> is_word_char (hd r)"
  shows "NextNonWS (more g r) = (t, more g1 r)"
  using assms
proof (induction g arbitrary: t g1 rule: NextNonWS.induct)
  case (1 g)
  obtain x g2 where n: "Next g = (x, g2)" by (cases "Next g")
  show ?case
  proof (cases "type x = WHITESPACE")
    case True
    then have nn: "NextNonWS g2 = (t, g1)"
      using "1.prems"(1) n by (simp add: NextNonWS.simps [of g])
    have "rest g2 \<noteq> []"
      using NextNonWS_rest_nonempty [OF nn] NextNonWS_span_nonempty [OF nn "1.prems"(2)] by simp
    then have "Next (more g r) = (x, more g2 r)"
      using True by (intro Next_more [OF n]) auto
    then have "NextNonWS (more g r) = NextNonWS (more g2 r)"
      using True by (simp add: NextNonWS.simps [of "more g r"])
    then show ?thesis
      using "1.IH" [OF n [symmetric] refl _ nn "1.prems"(2,3)] True by simp
  next
    case False
    then have e: "x = t" "g2 = g1"
      using "1.prems"(1) n by (simp_all add: NextNonWS.simps [of g])
    have "Next (more g r) = (x, more g2 r)"
      using False e "1.prems"(2,3) by (intro Next_more [OF n]) auto
    then show ?thesis
      using False e by (simp add: NextNonWS.simps [of "more g r"])
  qed
qed

section \<open>Parser: what a successful read consumes\<close>

lemma NextNonWS_symbol_consumes:
  "NextNonWS g = (t, g1) \<Longrightarrow> tok_eq t [c] \<Longrightarrow> length (rest g1) < length (rest g)"
  using NextNonWS_consumes [of t g1 g c "[]"] by simp

lemma read_consumes:
  "\<forall>v g'. read_val g = Inr (v, g') \<longrightarrow>
     (\<forall>tok g1. NextNonWS g = (tok, g1) \<longrightarrow>
        type tok \<noteq> MALFORMED \<and> length (rest g') \<le> length (rest g1))"
  "\<forall>v g'. read_dict_loop cur g = Inr (v, g') \<longrightarrow> length (rest g') < length (rest g)"
  "\<forall>v g'. read_list_loop cur i g = Inr (v, g') \<longrightarrow> length (rest g') < length (rest g)"
proof (induction g and cur g and cur i g rule: read_induct)
  case (val g)
  show ?case
  proof (intro allI impI)
    fix v g' tok0 g0
    assume r: "read_val g = Inr (v, g')" and t0: "NextNonWS g = (tok0, g0)"
    from r show "type tok0 \<noteq> MALFORMED \<and> length (rest g') \<le> length (rest g0)"
    proof (cases rule: read_val_InrE)
      case (empty_dict tok g1 peek)
      then show ?thesis
        using t0 NextNonWS_symbol [OF empty_dict(1,2)] symbol_chars NextNonWS_le [OF empty_dict(3)]
        by auto
    next
      case (dict tok g1 peek pg)
      have "length (rest g') < length (rest g1)"
        using val(1) [OF dict(1-4)] dict(5) by blast
      then show ?thesis
        using t0 dict(1) NextNonWS_symbol [OF dict(1,2)] symbol_chars by auto
    next
      case (empty_list tok g1 peek)
      then show ?thesis
        using t0 NextNonWS_symbol [OF empty_list(1,3)] symbol_chars
          NextNonWS_le [OF empty_list(4)]
        by auto
    next
      case (list tok g1 peek pg)
      have "length (rest g') < length (rest g1)"
        using val(2) [OF list(1-5)] list(6) by blast
      then show ?thesis
        using t0 list(1) NextNonWS_symbol [OF list(1,3)] symbol_chars by auto
    next
      case (atom tok)
      then show ?thesis
        using t0 by auto
    qed
  qed
next
  case (dict cur g)
  show ?case
  proof (intro allI impI)
    fix v g'
    assume r: "read_dict_loop cur g = Inr (v, g')"
    from r show "length (rest g') < length (rest g)"
    proof (cases rule: read_dict_loop_InrE)
      case (last_entry k g1 colon g2 w g3 comma)
      obtain x gx where x: "NextNonWS g2 = (x, gx)" by (cases "NextNonWS g2")
      have "length (rest g3) \<le> length (rest gx)"
        using dict(1) [OF last_entry(1-4)] last_entry(5) x by blast
      then show ?thesis
        using NextNonWS_le [OF last_entry(1)] NextNonWS_le [OF last_entry(3)]
          NextNonWS_le [OF x] NextNonWS_symbol_consumes [OF last_entry(6,7)]
        by simp
    next
      case (entry k g1 colon g2 w g3 comma g4)
      obtain x gx where x: "NextNonWS g2 = (x, gx)" by (cases "NextNonWS g2")
      have "length (rest g3) \<le> length (rest gx)"
        using dict(1) [OF entry(1-4)] entry(5) x by blast
      moreover have "length (rest g') < length (rest g4)"
        using dict(2) [OF entry(1-8)] entry(9) by blast
      ultimately show ?thesis
        using NextNonWS_le [OF entry(1)] NextNonWS_le [OF entry(3)]
          NextNonWS_le [OF x] NextNonWS_le [OF entry(6)]
        by simp
    qed
  qed
next
  case (list cur i g)
  show ?case
  proof (intro allI impI)
    fix v g'
    assume r: "read_list_loop cur i g = Inr (v, g')"
    obtain x gx where x: "NextNonWS g = (x, gx)" by (cases "NextNonWS g")
    from r show "length (rest g') < length (rest g)"
    proof (cases rule: read_list_loop_InrE)
      case (last_element w g3 comma)
      have "length (rest g3) \<le> length (rest gx)"
        using list(1) last_element(1) x by blast
      then show ?thesis
        using NextNonWS_le [OF x] NextNonWS_symbol_consumes [OF last_element(2,3)]
        by simp
    next
      case (element w g3 comma g4)
      have "length (rest g3) \<le> length (rest gx)"
        using list(1) element(1) x by blast
      moreover have "length (rest g') < length (rest g4)"
        using list(2) [OF element(1-4)] element(5) by blast
      ultimately show ?thesis
        using NextNonWS_le [OF x] NextNonWS_le [OF element(2)]
        by simp
    qed
  qed
qed

section \<open>Parser: text behind a value\<close>

lemma Next_word_span:
  assumes n: "Next g = (t, g1)" and ty: "type t = WORD"
  shows "span t \<noteq> [] \<and> is_word_char (last (span t))"
proof -
  obtain ty' m where cl: "classify (rest g) = (ty', m)"
    by (cases "classify (rest g)")
  have "token_at g ty' m = (t, g1)"
    using n cl by (simp add: Next_classify)
  then have t: "type t = ty'" "span t = take m (rest g)"
    by (auto simp: token_at_def)
  have "RE_WORD (rest g) = Some m"
    using cl t(1) ty by (auto simp: classify_def split: option.splits)
  then have m: "m = length (takeWhile is_word_char (rest g))" "m \<noteq> 0"
    by (auto simp: RE_WORD_def Let_def split: if_splits)
  have sp: "span t = takeWhile is_word_char (rest g)"
    using t(2) m(1) takeWhile_eq_take [of is_word_char "rest g"] by simp
  have ne: "span t \<noteq> []"
    using sp m by auto
  then have "last (span t) \<in> set (takeWhile is_word_char (rest g))"
    using sp last_in_set [of "span t"] by simp
  then show ?thesis
    using ne set_takeWhileD by fastforce
qed

lemma NextNonWS_word_ended:
  assumes "NextNonWS g = (t, g1)" and "type t = WORD"
  shows "word_ended (val_assign new_Val (str t))"
  using NextNonWS_is_Next [OF assms(1)] Next_word_span [of _ t g1] assms(2)
  by (auto simp: word_ended_def val_assign_def new_Val_def str_def)

lemma set_dict_not_word_ended: "\<not> word_ended (set_dict v)"
  by (simp add: word_ended_def set_dict_flags)

lemma read_more:
  "\<forall>v g'. read_val g = Inr (v, g') \<longrightarrow>
     (rest g' \<noteq> [] \<or> r = [] \<or> \<not> is_word_char (hd r) \<or> \<not> word_ended v) \<longrightarrow>
     read_val (more g r) = Inr (v, more g' r)"
  "\<forall>v g'. read_dict_loop cur g = Inr (v, g') \<longrightarrow>
     read_dict_loop cur (more g r) = Inr (v, more g' r)"
  "\<forall>v g'. read_list_loop cur i g = Inr (v, g') \<longrightarrow>
     read_list_loop cur i (more g r) = Inr (v, more g' r)"
proof (induction g and cur g and cur i g rule: read_induct)
  case (val g)
  show ?case
  proof (intro allI impI)
    fix v g'
    assume r: "read_val g = Inr (v, g')"
      and b: "rest g' \<noteq> [] \<or> r = [] \<or> \<not> is_word_char (hd r) \<or> \<not> word_ended v"
    from r show "read_val (more g r) = Inr (v, more g' r)"
    proof (cases rule: read_val_InrE)
      case (empty_dict tok g1 peek)
      have sy: "type tok = SYMBOL" "type peek = SYMBOL"
        using NextNonWS_symbol [OF empty_dict(1,2)] NextNonWS_symbol [OF empty_dict(3,4)]
          symbol_chars by simp_all
      have 1: "NextNonWS (more g r) = (tok, more g1 r)"
        using sy by (intro NextNonWS_more [OF empty_dict(1)]) simp_all
      have 2: "NextNonWS (more g1 r) = (peek, more g' r)"
        using sy by (intro NextNonWS_more [OF empty_dict(3)]) simp_all
      show ?thesis
        using read_val_unfold [OF 1 2] empty_dict(2,4,5) by simp
    next
      case (dict tok g1 peek pg)
      have sy: "type tok = SYMBOL"
        using NextNonWS_symbol [OF dict(1,2)] symbol_chars by simp
      have 1: "NextNonWS (more g r) = (tok, more g1 r)"
        using sy by (intro NextNonWS_more [OF dict(1)]) simp_all
      have "type peek = STRING"
        using dict(5,3) by (cases rule: read_dict_loop_InrE) auto
      then have 2: "NextNonWS (more g1 r) = (peek, more pg r)"
        by (intro NextNonWS_more [OF dict(3)]) simp_all
      have "read_dict_loop (set_dict new_Val) (more g1 r) = Inr (v, more g' r)"
        using val(1) [OF dict(1-4)] dict(5) by blast
      then show ?thesis
        using read_val_unfold [OF 1 2] dict(2,4) by simp
    next
      case (empty_list tok g1 peek)
      have sy: "type tok = SYMBOL" "type peek = SYMBOL"
        using NextNonWS_symbol [OF empty_list(1,3)] NextNonWS_symbol [OF empty_list(4,5)]
          symbol_chars by simp_all
      have 1: "NextNonWS (more g r) = (tok, more g1 r)"
        using sy by (intro NextNonWS_more [OF empty_list(1)]) simp_all
      have 2: "NextNonWS (more g1 r) = (peek, more g' r)"
        using sy by (intro NextNonWS_more [OF empty_list(4)]) simp_all
      show ?thesis
        using read_val_unfold [OF 1 2] empty_list(2,3,5,6) by simp
    next
      case (list tok g1 peek pg)
      have sy: "type tok = SYMBOL"
        using NextNonWS_symbol [OF list(1,3)] symbol_chars by simp
      have 1: "NextNonWS (more g r) = (tok, more g1 r)"
        using sy by (intro NextNonWS_more [OF list(1)]) simp_all
      have "type peek \<noteq> MALFORMED \<and> rest pg \<noteq> []"
        using list(6)
      proof (cases rule: read_list_loop_InrE)
        case (last_element w g3 comma)
        have "rest g3 \<noteq> []"
          using NextNonWS_symbol_consumes [OF last_element(2,3)] by auto
        then show ?thesis
          using read_consumes(1) [of g1] last_element(1) list(4) by fastforce
      next
        case (element w g3 comma g4)
        have "rest g3 \<noteq> []"
          using NextNonWS_symbol_consumes [OF element(2,4)] by auto
        then show ?thesis
          using read_consumes(1) [of g1] element(1) list(4) by fastforce
      qed
      then have 2: "NextNonWS (more g1 r) = (peek, more pg r)"
        by (intro NextNonWS_more [OF list(4)]) simp_all
      have "read_list_loop (set_list new_Val) 0 (more g1 r) = Inr (v, more g' r)"
        using val(2) [OF list(1-5)] list(6) by blast
      then show ?thesis
        using read_val_unfold [OF 1 2] list(2,3,5) by simp
    next
      case (atom tok)
      have "type tok = WORD \<longrightarrow> word_ended v"
        using NextNonWS_word_ended [OF atom(1)] atom(5) by simp
      then have "rest g' \<noteq> [] \<or> r = [] \<or> type tok \<noteq> WORD \<or> \<not> is_word_char (hd r)"
        using b by blast
      then have 1: "NextNonWS (more g r) = (tok, more g' r)"
        by (intro NextNonWS_more [OF atom(1,4)])
      obtain peek pg where 2: "NextNonWS (more g' r) = (peek, pg)"
        by (cases "NextNonWS (more g' r)")
      show ?thesis
        using read_val_unfold [OF 1 2] atom(2-5) by simp
    qed
  qed
next
  case (dict cur g)
  show ?case
  proof (intro allI impI)
    fix v g'
    assume r: "read_dict_loop cur g = Inr (v, g')"
    from r show "read_dict_loop cur (more g r) = Inr (v, more g' r)"
    proof (cases rule: read_dict_loop_InrE)
      case (last_entry k g1 colon g2 w g3 comma)
      have sy: "type colon = SYMBOL" "type comma = SYMBOL"
        using NextNonWS_symbol [OF last_entry(3,4)] NextNonWS_symbol [OF last_entry(6,7)]
          symbol_chars by simp_all
      have 1: "NextNonWS (more g r) = (k, more g1 r)"
        using last_entry(2) by (intro NextNonWS_more [OF last_entry(1)]) simp_all
      have 2: "NextNonWS (more g1 r) = (colon, more g2 r)"
        using sy by (intro NextNonWS_more [OF last_entry(3)]) simp_all
      have "rest g3 \<noteq> []"
        using NextNonWS_symbol_consumes [OF last_entry(6,7)] by auto
      then have 3: "read_val (more g2 r) = Inr (w, more g3 r)"
        using dict(1) [OF last_entry(1-4)] last_entry(5) by blast
      have 4: "NextNonWS (more g3 r) = (comma, more g' r)"
        using sy by (intro NextNonWS_more [OF last_entry(6)]) simp_all
      show ?thesis
        using read_dict_loop_unfold [OF 1 2, of cur] last_entry(2,4,7,8) 3 4 by simp
    next
      case (entry k g1 colon g2 w g3 comma g4)
      have sy: "type colon = SYMBOL" "type comma = SYMBOL"
        using NextNonWS_symbol [OF entry(3,4)] NextNonWS_symbol [OF entry(6,8)]
          symbol_chars by simp_all
      have 1: "NextNonWS (more g r) = (k, more g1 r)"
        using entry(2) by (intro NextNonWS_more [OF entry(1)]) simp_all
      have 2: "NextNonWS (more g1 r) = (colon, more g2 r)"
        using sy by (intro NextNonWS_more [OF entry(3)]) simp_all
      have "rest g3 \<noteq> []"
        using NextNonWS_symbol_consumes [OF entry(6,8)] by auto
      then have 3: "read_val (more g2 r) = Inr (w, more g3 r)"
        using dict(1) [OF entry(1-4)] entry(5) by blast
      have 4: "NextNonWS (more g3 r) = (comma, more g4 r)"
        using sy by (intro NextNonWS_more [OF entry(6)]) simp_all
      have 5: "read_dict_loop (key_store (key_slot cur (key_of k)) (key_of k) w) (more g4 r)
                 = Inr (v, more g' r)"
        using dict(2) [OF entry(1-8)] entry(9) by blast
      show ?thesis
        using read_dict_loop_unfold [OF 1 2, of cur] entry(2,4,7,8) 3 4 5 by simp
    qed
  qed
next
  case (list cur i g)
  show ?case
  proof (intro allI impI)
    fix v g'
    assume r: "read_list_loop cur i g = Inr (v, g')"
    from r show "read_list_loop cur i (more g r) = Inr (v, more g' r)"
    proof (cases rule: read_list_loop_InrE)
      case (last_element w g3 comma)
      have sy: "type comma = SYMBOL"
        using NextNonWS_symbol [OF last_element(2,3)] symbol_chars by simp
      have "rest g3 \<noteq> []"
        using NextNonWS_symbol_consumes [OF last_element(2,3)] by auto
      then have 3: "read_val (more g r) = Inr (w, more g3 r)"
        using list(1) last_element(1) by blast
      have 4: "NextNonWS (more g3 r) = (comma, more g' r)"
        using sy by (intro NextNonWS_more [OF last_element(2)]) simp_all
      show ?thesis
        using read_list_loop_unfold [of cur i "more g r"] last_element(3,4) 3 4 by simp
    next
      case (element w g3 comma g4)
      have sy: "type comma = SYMBOL"
        using NextNonWS_symbol [OF element(2,4)] symbol_chars by simp
      have "rest g3 \<noteq> []"
        using NextNonWS_symbol_consumes [OF element(2,4)] by auto
      then have 3: "read_val (more g r) = Inr (w, more g3 r)"
        using list(1) element(1) by blast
      have 4: "NextNonWS (more g3 r) = (comma, more g4 r)"
        using sy by (intro NextNonWS_more [OF element(2)]) simp_all
      have 5: "read_list_loop (idx_store (idx_slot cur i) i w) (i + 1) (more g4 r)
                 = Inr (v, more g' r)"
        using list(2) [OF element(1-4)] element(5) by blast
      show ?thesis
        using read_list_loop_unfold [of cur i "more g r"] element(3,4) 3 4 5 by simp
    qed
  qed
qed

text \<open>
  Claim C10. When the text \<open>p\<close> reads as a value \<open>v\<close>, then \<open>p\<close> followed by any text \<open>r\<close>
  reads as the same value, and what \<open>p\<close> left unread is left unread together with \<open>r\<close>:
  nothing behind the value is looked at, and nothing there is an error. The tokens of
  the value have to be the leading tokens of the longer text as well: when the value is
  a bare word that ends \<open>p\<close>, the text \<open>r\<close> must not go on with a character of a word,
  since the word itself would be longer then.
\<close>

theorem read_stops_after_one_value:
  "read_val (TokenGen_init p) = Inr (v, g') \<Longrightarrow>
   rest g' \<noteq> [] \<or> r = [] \<or> \<not> is_word_char (hd r) \<or> \<not> word_ended v \<Longrightarrow>
     read_val (TokenGen_init (p @ r)) = Inr (v, g'\<lparr>rest := rest g' @ r\<rparr>)
     \<and> read_range (p @ r) out_err = (Some v, out_err)"
proof -
  assume a: "read_val (TokenGen_init p) = Inr (v, g')"
    and b: "rest g' \<noteq> [] \<or> r = [] \<or> \<not> is_word_char (hd r) \<or> \<not> word_ended v"
  have "TokenGen_init (p @ r) = more (TokenGen_init p) r"
    by (simp add: TokenGen_init_def more_def)
  then have "read_val (TokenGen_init (p @ r)) = Inr (v, more g' r)"
    using read_more(1) [of "TokenGen_init p" r] a b by simp
  then show ?thesis
    by (simp add: read_range_def more_def)
qed

theorem read_stops_after_one_value_witness:
  "read_val (TokenGen_init ''[1, 2]'')
     = Inr (Val [] False [Val [] False [] False ''1'', Val [] False [] False ''2''] True [],
            \<lparr>rest = [], gen_line_num = 1, gen_line_pos = 7\<rparr>)
   \<and> \<not> word_ended (Val [] False [Val [] False [] False ''1'', Val [] False [] False ''2''] True [])
   \<and> read_range (''[1, 2]'' @ '']x, {'') []
     = (Some (Val [] False [Val [] False [] False ''1'', Val [] False [] False ''2''] True []), [])
   \<and> read_val (TokenGen_init ''12'')
     = Inr (Val [] False [] False ''12'', \<lparr>rest = [], gen_line_num = 1, gen_line_pos = 3\<rparr>)
   \<and> \<not> is_word_char (hd '' abc'')
   \<and> read_range (''12'' @ '' abc'') [] = (Some (Val [] False [] False ''12''), [])"
proof -
  have a: "read_val (TokenGen_init ''[1, 2]'')
     = Inr (Val [] False [Val [] False [] False ''1'', Val [] False [] False ''2''] True [],
            \<lparr>rest = [], gen_line_num = 1, gen_line_pos = 7\<rparr>)"
    by code_simp
  have b: "\<not> word_ended (Val [] False [Val [] False [] False ''1'', Val [] False [] False ''2''] True [])"
    by (simp add: word_ended_def)
  have c: "read_val (TokenGen_init ''12'')
     = Inr (Val [] False [] False ''12'', \<lparr>rest = [], gen_line_num = 1, gen_line_pos = 3\<rparr>)"
    by code_simp
  have d: "\<not> is_word_char (hd '' abc'')"
    by (simp add: is_word_char_def)
  show ?thesis
    using a b c d
      read_stops_after_one_value [OF a, of "'']x, {''" "[]"]
      read_stops_after_one_value [OF c, of "'' abc''" "[]"]
    by simp
qed

section \<open>Parser: the entries of an object\<close>

lemma dict_entries_read:
  "dict_entries g kvs g' \<Longrightarrow>
   read_dict_loop cur g = Inr (fold (\<lambda>kv n. store_entry n kv) kvs cur, g')"
proof (induction kvs arbitrary: g cur)
  case Nil
  then show ?case by simp
next
  case (Cons kv kvs)
  obtain k g1 where k: "NextNonWS g = (k, g1)" by (cases "NextNonWS g")
  obtain colon g2 where c: "NextNonWS g1 = (colon, g2)" by (cases "NextNonWS g1")
  have f: "type k = STRING" "key_of k = fst kv" "tok_eq colon '':''"
    using Cons.prems k c by simp_all
  obtain g3 where w: "read_val g2 = Inr (snd kv, g3)"
    using Cons.prems k c by (auto split: sum.splits)
  obtain comma g4 where m: "NextNonWS g3 = (comma, g4)" by (cases "NextNonWS g3")
  note u = read_dict_loop_unfold [OF k c, of cur]
  show ?case
  proof (cases "kvs = []")
    case True
    then have "tok_eq comma ''}''" "g4 = g'"
      using Cons.prems k c w m by simp_all
    then show ?thesis
      using u f w m True by (simp add: store_entry_def)
  next
    case False
    then have d: "tok_eq comma '',''" "dict_entries g4 kvs g'"
      using Cons.prems k c w m by simp_all
    have nb: "\<not> tok_eq comma ''}''"
      using d(1) by (simp add: tok_eq_span)
    show ?thesis
      using u f w m d(1) nb Cons.IH [OF d(2), of "store_entry cur kv"]
      by (simp add: store_entry_def)
  qed
qed

lemma map_put_twice: "map_put k w (map_put k x d) = map_put k w d"
  by (induction d) auto


lemma keys_map_put': "set (map fst (map_put k w d)) = insert k (set (map fst d))"
proof (induction d)
  case Nil
  show ?case by simp
next
  case (Cons a d)
  obtain k' v' where a: "a = (k', v')" by (cases a)
  show ?case
    unfolding a using Cons.IH by (simp del: set_map) blast
qed

lemma keys_map_put: "fst ` set (map_put k w d) = insert k (fst ` set d)"
  using keys_map_put' [of k w d] by simp

lemma sorted_map_put:
  "sorted_wrt (<) (map fst d) \<Longrightarrow> sorted_wrt (<) (map fst (map_put k w d))"
proof (induction d)
  case Nil
  then show ?case by simp
next
  case (Cons a d)
  obtain k' v' where a: "a = (k', v')" by (cases a)
  have tl: "sorted_wrt (<) (map fst (map_put k w d))" and hd: "\<forall>x\<in>fst ` set d. k' < x"
    using Cons a by auto
  show ?case
  proof (cases "k < k'")
    case True
    then show ?thesis
      using Cons.prems a by auto
  next
    case nl: False
    show ?thesis
    proof (cases "k = k'")
      case True
      then show ?thesis
        using Cons.prems a by auto
    next
      case False
      then have "k' < k"
        using nl by simp
      then have "\<forall>x\<in>fst ` set (map_put k w d). k' < x"
        using hd by (simp add: keys_map_put)
      then show ?thesis
        using a nl False tl by auto
    qed
  qed
qed

lemma store_entry_fields:
  "is_dict_fld n \<Longrightarrow>
   store_entry n kv = Val (map_put (fst kv) (snd kv) (dict_fld n)) True (list_fld n)
                        (is_list_fld n) (val_fld n)"
  by (simp add: store_entry_def key_store_def key_slot_def key_slot_in_def set_dict_def
      map_put_twice)

lemma fold_store_entry:
  "is_dict_fld n \<Longrightarrow>
   fold (\<lambda>kv n. store_entry n kv) kvs n
     = Val (fold (\<lambda>kv d. map_put (fst kv) (snd kv) d) kvs (dict_fld n)) True (list_fld n)
         (is_list_fld n) (val_fld n)"
proof (induction kvs arbitrary: n)
  case Nil
  then show ?case by (cases n) simp
next
  case (Cons kv kvs)
  have "is_dict_fld (store_entry n kv)"
    using Cons.prems by (simp add: store_entry_fields)
  then show ?case
    using Cons.IH [of "store_entry n kv"] Cons.prems by (simp add: store_entry_fields)
qed

lemma sorted_fold_map_put:
  "sorted_wrt (<) (map fst d) \<Longrightarrow>
   sorted_wrt (<) (map fst (fold (\<lambda>kv d. map_put (fst kv) (snd kv) d) kvs d))"
  by (induction kvs arbitrary: d) (simp_all add: sorted_map_put)


lemma set_dict_new: "set_dict new_Val = Val [] True [] False []"
  by (simp add: set_dict_def new_Val_def reset_def)



section \<open>Tokenizer: reading a known text\<close>

lemma classify_whitespace:
  assumes "w \<noteq> []" "\<forall>c\<in>set w. is_ws_char c" "s = [] \<or> \<not> is_ws_char (hd s)"
  shows "classify (w @ s) = (WHITESPACE, length w)"
proof -
  have "takeWhile is_ws_char s = []"
    using assms(3) by (cases s) auto
  then have "takeWhile is_ws_char (w @ s) = w"
    using assms(2) by (simp add: takeWhile_append2)
  then show ?thesis
    using assms(1) by (simp add: classify_def RE_WHITESPACE_def)
qed

lemma classify_not_whitespace:
  "classify s = (ty, n) \<Longrightarrow> ty \<noteq> WHITESPACE \<Longrightarrow> s = [] \<or> \<not> is_ws_char (hd s)"
  by (cases s) (auto simp: classify_def RE_WHITESPACE_def Let_def split: option.splits if_splits)

lemma NextNonWS_token_at:
  assumes "classify (rest g) = (ty, n)" "ty \<noteq> WHITESPACE"
  shows "NextNonWS g = token_at g ty n"
  using assms by (simp add: NextNonWS.simps [of g] Next_classify token_at_def)

lemma NextNonWS_skip:
  assumes "rest g = w @ s" "\<forall>c\<in>set w. is_ws_char c" "s = [] \<or> \<not> is_ws_char (hd s)"
  shows "\<exists>g0. NextNonWS g = NextNonWS g0 \<and> rest g0 = s"
proof (cases "w = []")
  case True
  then show ?thesis using assms(1) by auto
next
  case False
  have "classify (rest g) = (WHITESPACE, length w)"
    using classify_whitespace [OF False assms(2,3)] assms(1) by simp
  then have "Next g = token_at g WHITESPACE (length w)"
    by (simp add: Next_classify)
  then have "NextNonWS g = NextNonWS (snd (token_at g WHITESPACE (length w)))"
    by (simp add: NextNonWS.simps [of g] token_at_def)
  moreover have "rest (snd (token_at g WHITESPACE (length w))) = s"
    using assms(1) by (simp add: token_at_def)
  ultimately show ?thesis by blast
qed

lemma NextNonWS_reads:
  assumes "rest g = w @ a @ r" "\<forall>c\<in>set w. is_ws_char c"
    and "classify (a @ r) = (ty, length a)" "ty \<noteq> WHITESPACE"
  shows "\<exists>t g1. NextNonWS g = (t, g1) \<and> span t = a \<and> type t = ty \<and> rest g1 = r"
proof -
  obtain g0 where g0: "NextNonWS g = NextNonWS g0" "rest g0 = a @ r"
    using NextNonWS_skip [OF assms(1,2)] classify_not_whitespace [OF assms(3,4)] by blast
  have "NextNonWS g0 = token_at g0 ty (length a)"
    using assms(3,4) g0(2) by (intro NextNonWS_token_at) simp_all
  then show ?thesis
    using g0 by (simp add: token_at_def)
qed

lemma classify_symbol:
  "is_symbol_char c \<Longrightarrow> classify (c # r) = (SYMBOL, 1)"
  using symbol_char_other [of c]
  by (simp add: classify_def RE_WHITESPACE_def RE_STRING_def RE_WORD_def RE_SYMBOL_def)

lemma NextNonWS_reads_symbol:
  assumes "rest g = w @ c # r" "\<forall>c\<in>set w. is_ws_char c" "is_symbol_char c"
  shows "\<exists>t g1. NextNonWS g = (t, g1) \<and> span t = [c] \<and> type t = SYMBOL \<and> rest g1 = r"
  using NextNonWS_reads [of g w "[c]" r SYMBOL] assms classify_symbol [OF assms(3), of r]
  by simp

lemma NextNonWS_reads_atom:
  assumes "rest g = w @ a @ r" "\<forall>c\<in>set w. is_ws_char c" "token_text a"
    and "r = [] \<or> \<not> is_word_char (hd r)"
  shows "\<exists>t g1. NextNonWS g = (t, g1) \<and> span t = a \<and> type t \<noteq> MALFORMED \<and> rest g1 = r"
proof -
  obtain ty where ty: "classify a = (ty, length a)" "ty = STRING \<or> ty = WORD \<or> ty = SYMBOL"
    using assms(3) by (auto simp: token_text_def)
  have "classify (a @ r) = (ty, length a)"
    using ty assms(4) by (intro classify_append) auto
  then show ?thesis
    using NextNonWS_reads [OF assms(1,2), of ty] ty(2) by auto
qed

section \<open>Escaper: keys\<close>

lemma strip_escapes_escape_loop: "strip_escapes (escape_loop k) = Some k"
proof (induction k)
  case Nil
  show ?case by simp
next
  case (Cons c cs)
  show ?case
  proof (cases "c = dquote \<or> c = backslash")
    case True
    then show ?thesis
      using Cons.IH by simp
  next
    case False
    then show ?thesis
      using Cons.IH by (cases "escape_loop cs") auto
  qed
qed

lemma unescape_escape: "unescape (escape k) = Some k"
proof -
  have "unescape (escape k) = strip_escapes (butlast (tl (escape k)))"
    by (rule unescape_quoted) (simp_all add: escape_def)
  then show ?thesis
    by (simp add: escape_def strip_escapes_escape_loop)
qed

lemma dquote_other:
  "dquote \<noteq> backslash" "dquote \<noteq> newline" "dquote \<noteq> carriage_return"
  "backslash \<noteq> newline" "backslash \<noteq> carriage_return"
  by (simp_all add: dquote_def backslash_def newline_def carriage_return_def)

lemma string_body_escape_loop:
  "string_body (escape_loop k @ dquote # r) = Some (Suc (length (escape_loop k)))"
proof (induction k)
  case Nil
  show ?case by (cases r) simp_all
next
  case (Cons c cs)
  show ?case
  proof (cases "c = dquote \<or> c = backslash")
    case True
    then show ?thesis
      using Cons.IH dquote_other by auto
  next
    case False
    obtain d ds where "escape_loop cs @ dquote # r = d # ds"
      by (cases "escape_loop cs @ dquote # r") auto
    then show ?thesis
      using False Cons.IH by simp
  qed
qed

lemma not_ws_dquote: "\<not> is_ws_char dquote"
  by (simp add: is_ws_char_def dquote_def tab_def newline_def carriage_return_def)

lemma classify_escape: "classify (escape k @ r) = (STRING, length (escape k))"
  using not_ws_dquote string_body_escape_loop [of k r]
  by (simp add: classify_def escape_def RE_WHITESPACE_def RE_STRING_def)

lemma NextNonWS_reads_key:
  assumes "rest g = w @ escape k @ r" "\<forall>c\<in>set w. is_ws_char c"
  shows "\<exists>t g1. NextNonWS g = (t, g1) \<and> type t = STRING \<and> key_of t = k \<and> rest g1 = r"
proof -
  obtain t g1 where t: "NextNonWS g = (t, g1)" "span t = escape k" "type t = STRING"
      "rest g1 = r"
    using NextNonWS_reads [OF assms, of STRING] classify_escape [of k r] by auto
  have "key_of t = k"
    using t(2) by (simp add: key_of_def str_def unescape_escape)
  then show ?thesis
    using t by blast
qed

section \<open>Writer and parser: a written tree is read back\<close>

lemma reads_backD:
  assumes "reads_back t" "\<forall>c\<in>set indent. is_ws_char c" "\<forall>c\<in>set w. is_ws_char c"
    "r = [] \<or> \<not> is_word_char (hd r)" "rest (g::TokenGen) = w @ write_val t indent @ r"
  obtains g' where "read_val g = Inr (t, g')" "rest g' = r"
  using assms unfolding reads_back_def by blast

lemma ws_chars: "is_ws_char (CHR '' '')" "is_ws_char newline"
  by (simp_all add: is_ws_char_def)

lemma not_word_chars: "\<not> is_word_char newline" "\<not> is_word_char (CHR '','')"
  by (simp_all add: is_word_char_def newline_def)

lemma set_list_new: "set_list new_Val = Val [] False [] True []"
  by (simp add: set_list_def new_Val_def reset_def)

lemma atom_not_symbol:
  assumes "NextNonWS g = (t, g1)" "type t = STRING \<or> type t = WORD" "is_symbol_char c"
  shows "\<not> tok_eq t [c]"
  using NextNonWS_symbol [OF assms(1) _ assms(3)] assms(2) by auto

lemma reads_back_scalar:
  assumes "token_text s"
  shows "reads_back (Val [] False [] False s)"
  unfolding reads_back_def
proof (intro allI impI)
  fix indent w r and g :: TokenGen
  assume w: "\<forall>c\<in>set w. is_ws_char c" and r: "r = [] \<or> \<not> is_word_char (hd r)"
    and g: "rest g = w @ write_val (Val [] False [] False s) indent @ r"
  obtain t g1 where t: "NextNonWS g = (t, g1)" "span t = s" "type t \<noteq> MALFORMED"
      "rest g1 = r"
    using NextNonWS_reads_atom [OF _ w assms r, of g] g by auto
  obtain peek pg where p: "NextNonWS g1 = (peek, pg)" by (cases "NextNonWS g1")
  have "\<not> tok_eq t ''{''" "\<not> tok_eq t ''[''"
    using assms t(2) by (simp_all add: tok_eq_span token_text_def)
  then have "read_val g = Inr (Val [] False [] False s, g1)"
    using read_val_unfold [OF t(1) p] t(2,3) by (simp add: val_assign_def new_Val_def str_def)
  then show "\<exists>g'. read_val g = Inr (Val [] False [] False s, g') \<and> rest g' = r"
    using t(4) by blast
qed

lemma map_put_append:
  "\<forall>x\<in>set d. fst x < k \<Longrightarrow> map_put k v d = d @ [(k, v)]"
  by (induction d) auto

lemma fold_map_put_sorted:
  "sorted_wrt (<) (map fst (d @ kvs)) \<Longrightarrow>
   fold (\<lambda>kv d. map_put (fst kv) (snd kv) d) kvs d = d @ kvs"
proof (induction kvs arbitrary: d)
  case Nil
  show ?case by simp
next
  case (Cons kv kvs)
  have "\<forall>x\<in>set d. fst x < fst kv"
    using Cons.prems by (auto simp: sorted_wrt_append)
  then have "map_put (fst kv) (snd kv) d = d @ [kv]"
    using map_put_append [of d "fst kv" "snd kv"] by simp
  then show ?case
    using Cons.IH [of "d @ [kv]"] Cons.prems by simp
qed

lemma reads_back_entries:
  assumes ind: "\<forall>c\<in>set indent. is_ws_char c"
    and r: "r = [] \<or> \<not> is_word_char (hd r)"
  shows "list_all reads_back (map snd (kv # kvs)) \<Longrightarrow> \<forall>c\<in>set w. is_ws_char c \<Longrightarrow>
     rest (g::TokenGen) = w @ escape (fst kv) @ '': '' @ write_val (snd kv) (indent @ ''   '')
                @ write_dict_loop kvs (indent @ ''   '') True @ [newline] @ indent @ ''}'' @ r \<Longrightarrow>
     \<exists>g'. dict_entries g (kv # kvs) g' \<and> rest g' = r"
proof (induction kvs arbitrary: kv w g)
  case Nil
  define T where "T = [newline] @ indent @ ''}'' @ r"
  obtain k g1 where k: "NextNonWS g = (k, g1)" "type k = STRING" "key_of k = fst kv"
      "rest g1 = '':'' @ '' '' @ write_val (snd kv) (indent @ ''   '') @ T"
    using NextNonWS_reads_key [OF _ Nil.prems(2), of g "fst kv"] Nil.prems(3)
    by (auto simp: T_def)
  obtain colon g2 where c: "NextNonWS g1 = (colon, g2)" "span colon = '':''"
      "rest g2 = '' '' @ write_val (snd kv) (indent @ ''   '') @ T"
    using NextNonWS_reads_symbol [of g1 "[]" "CHR '':''"] k(4) symbol_chars by auto
  have "reads_back (snd kv)"
    using Nil.prems(1) by simp
  then obtain g3 where v: "read_val g2 = Inr (snd kv, g3)" "rest g3 = T"
    using c(3) ind ws_chars not_word_chars
    by (elim reads_backD [where indent = "indent @ ''   ''" and w = "'' ''" and r = T and g = g2])
       (auto simp: T_def)
  obtain comma g4 where m: "NextNonWS g3 = (comma, g4)" "span comma = ''}''" "rest g4 = r"
    using NextNonWS_reads_symbol [of g3 "[newline] @ indent" "CHR ''}''" r] v(2) ind ws_chars
      symbol_chars by (auto simp: T_def)
  have "dict_entries g [kv] g4"
    using k c v m by (simp add: tok_eq_span)
  then show ?case
    using m(3) by blast
next
  case (Cons kv' kvs)
  define T' where "T' = escape (fst kv') @ '': '' @ write_val (snd kv') (indent @ ''   '')
                @ write_dict_loop kvs (indent @ ''   '') True @ [newline] @ indent @ ''}'' @ r"
  define T where "T = '','' @ ([newline] @ indent @ ''   '') @ T'"
  have wl: "write_dict_loop (kv' # kvs) (indent @ ''   '') True @ [newline] @ indent @ ''}'' @ r = T"
    by (cases kv') (simp add: T_def T'_def)
  obtain k g1 where k: "NextNonWS g = (k, g1)" "type k = STRING" "key_of k = fst kv"
      "rest g1 = '':'' @ '' '' @ write_val (snd kv) (indent @ ''   '') @ T"
    using NextNonWS_reads_key [OF _ Cons.prems(2), of g "fst kv"] Cons.prems(3) wl
    by auto
  obtain colon g2 where c: "NextNonWS g1 = (colon, g2)" "span colon = '':''"
      "rest g2 = '' '' @ write_val (snd kv) (indent @ ''   '') @ T"
    using NextNonWS_reads_symbol [of g1 "[]" "CHR '':''"] k(4) symbol_chars by auto
  have "reads_back (snd kv)"
    using Cons.prems(1) by simp
  then obtain g3 where v: "read_val g2 = Inr (snd kv, g3)" "rest g3 = T"
    using c(3) ind ws_chars not_word_chars
    by (elim reads_backD [where indent = "indent @ ''   ''" and w = "'' ''" and r = T and g = g2])
       (auto simp: T_def)
  obtain comma g4 where m: "NextNonWS g3 = (comma, g4)" "span comma = '',''"
      "rest g4 = ([newline] @ indent @ ''   '') @ T'"
    using NextNonWS_reads_symbol [of g3 "[]" "CHR '',''"] v(2) symbol_chars
    by (auto simp: T_def)
  have "\<exists>g'. dict_entries g4 (kv' # kvs) g' \<and> rest g' = r"
    using Cons.prems(1) ind ws_chars m(3)
    by (intro Cons.IH [where w = "[newline] @ indent @ ''   ''"]) (auto simp: T'_def)
  then obtain g' where e: "dict_entries g4 (kv' # kvs) g'" "rest g' = r"
    by blast
  have "dict_entries g (kv # kv' # kvs) g'"
    using k c v m e(1) by (simp add: tok_eq_span)
  then show ?case
    using e(2) by blast
qed

lemma reads_back_dict:
  assumes s: "sorted_wrt (<) (map fst d)" and c: "list_all reads_back (map snd d)"
  shows "reads_back (Val d True [] False [])"
  unfolding reads_back_def
proof (intro allI impI)
  fix indent w r and g :: TokenGen
  assume ind: "\<forall>c\<in>set indent. is_ws_char c" and w: "\<forall>c\<in>set w. is_ws_char c"
    and r: "r = [] \<or> \<not> is_word_char (hd r)"
    and g: "rest g = w @ write_val (Val d True [] False []) indent @ r"
  show "\<exists>g'. read_val g = Inr (Val d True [] False [], g') \<and> rest g' = r"
  proof (cases d)
    case Nil
    obtain tok g1 where t: "NextNonWS g = (tok, g1)" "span tok = ''{''" "rest g1 = ''}'' @ r"
      using NextNonWS_reads_symbol [OF _ w, of g "CHR ''{''" "''}'' @ r"] g Nil symbol_chars
      by auto
    obtain peek pg where p: "NextNonWS g1 = (peek, pg)" "span peek = ''}''" "rest pg = r"
      using NextNonWS_reads_symbol [of g1 "[]" "CHR ''}''" r] t(3) symbol_chars by auto
    show ?thesis
      using read_val_unfold [OF t(1) p(1)] t(2) p(2,3) Nil
      by (simp add: tok_eq_span set_dict_new)
  next
    case (Cons kv kvs)
    define T where "T = escape (fst kv) @ '': '' @ write_val (snd kv) (indent @ ''   '')
                @ write_dict_loop kvs (indent @ ''   '') True @ [newline] @ indent @ ''}'' @ r"
    have wv: "write_val (Val d True [] False []) indent @ r
               = ''{'' @ ([newline] @ indent @ ''   '') @ T"
      using Cons by (cases kv) (simp add: T_def)
    obtain tok g1 where t: "NextNonWS g = (tok, g1)" "span tok = ''{''"
        "rest g1 = ([newline] @ indent @ ''   '') @ T"
      using NextNonWS_reads_symbol [OF _ w, of g "CHR ''{''"] g wv symbol_chars by auto
    obtain g' where e: "dict_entries g1 (kv # kvs) g'" "rest g' = r"
      using reads_back_entries [OF ind r, of kv kvs "[newline] @ indent @ ''   ''" g1]
        c Cons ind ws_chars t(3) by (auto simp: T_def)
    obtain peek pg where p: "NextNonWS g1 = (peek, pg)" by (cases "NextNonWS g1")
    have "type peek = STRING"
      using e(1) p by (auto split: prod.splits)
    then have nb: "\<not> tok_eq peek ''}''"
      using atom_not_symbol [OF p] symbol_chars by auto
    have "fold (\<lambda>kv d. map_put (fst kv) (snd kv) d) d [] = d"
      using fold_map_put_sorted [of "[]" d] s by simp
    then have "read_dict_loop (set_dict new_Val) g1 = Inr (Val d True [] False [], g')"
      using dict_entries_read [OF e(1), of "set_dict new_Val"]
        fold_store_entry [of "set_dict new_Val" d] Cons
      by (simp add: set_dict_new)
    then show ?thesis
      using read_val_unfold [OF t(1) p] t(2) nb e(2) by (simp add: tok_eq_span)
  qed
qed

lemma idx_store_append:
  assumes "is_list_fld cur" "i = length (list_fld cur)"
  shows "idx_store (idx_slot cur i) i v
           = Val (dict_fld cur) (is_dict_fld cur) (list_fld cur @ [v]) True (val_fld cur)"
proof -
  have "grow_loop (list_fld cur) i = list_fld cur @ [new_Val]"
    using assms(2) by (simp add: grow_loop_eq)
  then show ?thesis
    using assms by (simp add: idx_store_def idx_slot_def set_list_def)
qed

lemma reads_back_elements:
  assumes ind: "\<forall>c\<in>set indent. is_ws_char c"
    and r: "r = [] \<or> \<not> is_word_char (hd r)"
  shows "list_all reads_back (v # vs) \<Longrightarrow> \<forall>c\<in>set w. is_ws_char c \<Longrightarrow>
     is_list_fld cur \<Longrightarrow> i = length (list_fld cur) \<Longrightarrow>
     rest (g::TokenGen) = w @ write_val v (indent @ ''   '')
                @ write_list_loop vs (indent @ ''   '') True @ [newline] @ indent @ '']'' @ r \<Longrightarrow>
     \<exists>g'. read_list_loop cur i g
             = Inr (Val (dict_fld cur) (is_dict_fld cur) (list_fld cur @ v # vs) True
                      (val_fld cur), g')
          \<and> rest g' = r"
proof (induction vs arbitrary: v w g cur i)
  case Nil
  define T where "T = [newline] @ indent @ '']'' @ r"
  have "reads_back v"
    using Nil.prems(1) by simp
  then obtain g3 where v: "read_val g = Inr (v, g3)" "rest g3 = T"
    using Nil.prems(2,5) ind ws_chars not_word_chars
    by (elim reads_backD [where indent = "indent @ ''   ''" and w = w and r = T and g = g])
       (auto simp: T_def)
  obtain comma g4 where m: "NextNonWS g3 = (comma, g4)" "span comma = '']''" "rest g4 = r"
    using NextNonWS_reads_symbol [of g3 "[newline] @ indent" "CHR '']''" r] v(2) ind ws_chars
      symbol_chars by (auto simp: T_def)
  show ?case
    using read_list_loop_unfold [of cur i g] v(1) m idx_store_append [OF Nil.prems(3,4), of v]
    by (simp add: tok_eq_span)
next
  case (Cons v' vs)
  define T' where "T' = write_val v' (indent @ ''   '')
                @ write_list_loop vs (indent @ ''   '') True @ [newline] @ indent @ '']'' @ r"
  define T where "T = '','' @ ([newline] @ indent @ ''   '') @ T'"
  have wl: "write_list_loop (v' # vs) (indent @ ''   '') True @ [newline] @ indent @ '']'' @ r = T"
    by (simp add: T_def T'_def)
  have "reads_back v"
    using Cons.prems(1) by simp
  then obtain g3 where v: "read_val g = Inr (v, g3)" "rest g3 = T"
    using Cons.prems(2,5) ind ws_chars not_word_chars wl
    by (elim reads_backD [where indent = "indent @ ''   ''" and w = w and r = T and g = g])
       (auto simp: T_def)
  obtain comma g4 where m: "NextNonWS g3 = (comma, g4)" "span comma = '',''"
      "rest g4 = ([newline] @ indent @ ''   '') @ T'"
    using NextNonWS_reads_symbol [of g3 "[]" "CHR '',''"] v(2) symbol_chars
    by (auto simp: T_def)
  define cur' where "cur' = idx_store (idx_slot cur i) i v"
  have c': "cur' = Val (dict_fld cur) (is_dict_fld cur) (list_fld cur @ [v]) True (val_fld cur)"
    unfolding cur'_def using Cons.prems(3,4) by (rule idx_store_append)
  have "\<exists>g'. read_list_loop cur' (i + 1) g4
             = Inr (Val (dict_fld cur') (is_dict_fld cur') (list_fld cur' @ v' # vs) True
                      (val_fld cur'), g')
          \<and> rest g' = r"
    using Cons.prems(1,4) ind ws_chars m(3) c'
    by (intro Cons.IH [where w = "[newline] @ indent @ ''   ''"]) (auto simp: T'_def)
  then obtain g' where e: "read_list_loop cur' (i + 1) g4
             = Inr (Val (dict_fld cur) (is_dict_fld cur) (list_fld cur @ v # v' # vs) True
                      (val_fld cur), g')" "rest g' = r"
    using c' by auto
  show ?case
    using read_list_loop_unfold [of cur i g] v(1) m(1,2) e
    by (simp add: tok_eq_span cur'_def)
qed

lemma reads_back_list:
  assumes c: "list_all reads_back l"
    and wr: "case l of [] \<Rightarrow> True | v # vs \<Rightarrow> \<not> closing_bracket v"
  shows "reads_back (Val [] False l True [])"
  unfolding reads_back_def
proof (intro allI impI)
  fix indent w r and g :: TokenGen
  assume ind: "\<forall>c\<in>set indent. is_ws_char c" and w: "\<forall>c\<in>set w. is_ws_char c"
    and r: "r = [] \<or> \<not> is_word_char (hd r)"
    and g: "rest g = w @ write_val (Val [] False l True []) indent @ r"
  show "\<exists>g'. read_val g = Inr (Val [] False l True [], g') \<and> rest g' = r"
  proof (cases l)
    case Nil
    obtain tok g1 where t: "NextNonWS g = (tok, g1)" "span tok = ''[''" "rest g1 = '']'' @ r"
      using NextNonWS_reads_symbol [OF _ w, of g "CHR ''[''" "'']'' @ r"] g Nil symbol_chars
      by auto
    obtain peek pg where p: "NextNonWS g1 = (peek, pg)" "span peek = '']''" "rest pg = r"
      using NextNonWS_reads_symbol [of g1 "[]" "CHR '']''" r] t(3) symbol_chars by auto
    show ?thesis
      using read_val_unfold [OF t(1) p(1)] t(2) p(2,3) Nil
      by (simp add: tok_eq_span set_list_new)
  next
    case (Cons v vs)
    define T where "T = write_val v (indent @ ''   '')
                @ write_list_loop vs (indent @ ''   '') True @ [newline] @ indent @ '']'' @ r"
    have wv: "write_val (Val [] False l True []) indent @ r
               = ''['' @ ([newline] @ indent @ ''   '') @ T"
      using Cons by (simp add: T_def)
    obtain tok g1 where t: "NextNonWS g = (tok, g1)" "span tok = ''[''"
        "rest g1 = ([newline] @ indent @ ''   '') @ T"
      using NextNonWS_reads_symbol [OF _ w, of g "CHR ''[''"] g wv symbol_chars by auto
    obtain g' where e: "read_list_loop (set_list new_Val) 0 g1
                          = Inr (Val [] False (v # vs) True [], g')" "rest g' = r"
      using reads_back_elements [OF ind r, of v vs "[newline] @ indent @ ''   ''"
          "set_list new_Val" 0 g1]
        c Cons ind ws_chars t(3) by (auto simp: T_def set_list_new)
    obtain peek pg where p: "NextNonWS g1 = (peek, pg)" by (cases "NextNonWS g1")
    obtain peek2 pg2 where p2: "NextNonWS pg = (peek2, pg2)" by (cases "NextNonWS pg")
    have nb: "\<not> tok_eq peek '']''"
    proof
      assume b: "tok_eq peek '']''"
      then have "type peek = SYMBOL"
        using NextNonWS_symbol [OF p] symbol_chars by auto
      then have "read_val g1 = Inr (Val [] False [] False '']'', pg)"
        using read_val_unfold [OF p p2] b
        by (simp add: tok_eq_span val_assign_def new_Val_def str_def)
      moreover have "reads_back v"
        using c Cons by simp
      then obtain g3 where "read_val g1 = Inr (v, g3)"
        using t(3) ind ws_chars not_word_chars
        by (elim reads_backD [where indent = "indent @ ''   ''"
              and w = "[newline] @ indent @ ''   ''" and g = g1
              and r = "write_list_loop vs (indent @ ''   '') True @ [newline] @ indent @ '']'' @ r"])
           (cases vs; auto simp: T_def)+
      ultimately show False
        using wr Cons by (simp add: closing_bracket_def)
    qed
    show ?thesis
      using read_val_unfold [OF t(1) p] t(2) nb e Cons by (simp add: tok_eq_span)
  qed
qed

lemma plain_reads_back: "plain t \<Longrightarrow> reads_back t"
proof (induction t)
  case (Val d di l li s)
  show ?case
  proof (cases di)
    case True
    then have f: "\<not> li" "l = []" "s = []" "sorted_wrt (<) (map fst d)"
        "list_all plain (map snd d)"
      using Val.prems by simp_all
    have "list_all reads_back (map snd d)"
      unfolding list_all_iff
    proof
      fix b assume "b \<in> set (map snd d)"
      then obtain a where a: "a \<in> set d" "b = snd a" by auto
      have "b \<in> Basic_BNFs.snds a"
        using a(2) by (cases a) simp
      moreover have "plain b"
        using f(5) a by (auto simp: list_all_iff)
      ultimately show "reads_back b"
        using Val.IH(1) [OF a(1)] by blast
    qed
    then show ?thesis
      using reads_back_dict [OF f(4)] True f(1-3) by simp
  next
    case nd: False
    show ?thesis
    proof (cases li)
      case True
      then have f: "d = []" "s = []" "list_all plain l"
          "case l of [] \<Rightarrow> True | v # vs \<Rightarrow> \<not> closing_bracket v"
        using Val.prems nd by simp_all
      have "list_all reads_back l"
        using f(3) Val.IH(2) by (auto simp: list_all_iff)
      then show ?thesis
        using reads_back_list [OF _ f(4)] True nd f(1,2) by simp
    next
      case False
      then show ?thesis
        using Val.prems nd reads_back_scalar [of s] by simp
    qed
  qed
qed

section \<open>Node model: every reachable node\<close>

lemma read_exclusive_tree:
  "\<forall>v g'. read_val g = Inr (v, g') \<longrightarrow> exclusive_tree v"
  "exclusive_tree cur \<longrightarrow> (\<forall>v g'. read_dict_loop cur g = Inr (v, g') \<longrightarrow> exclusive_tree v)"
  "exclusive_tree cur \<longrightarrow> (\<forall>v g'. read_list_loop cur i g = Inr (v, g') \<longrightarrow> exclusive_tree v)"
proof (induction g and cur g and cur i g rule: read_induct)
  case (val g)
  show ?case
  proof (intro allI impI)
    fix v g'
    assume r: "read_val g = Inr (v, g')"
    note n = exclusive_tree_new
    from r show "exclusive_tree v"
    proof (cases rule: read_val_InrE)
      case (empty_dict tok g1 peek)
      then show ?thesis
        using exclusive_tree_set_dict [OF n] by simp
    next
      case (dict tok g1 peek pg)
      then show ?thesis
        using val(1) [OF dict(1-4)] exclusive_tree_set_dict [OF n] by blast
    next
      case (empty_list tok g1 peek)
      then show ?thesis
        using exclusive_tree_set_list [OF n] by simp
    next
      case (list tok g1 peek pg)
      then show ?thesis
        using val(2) [OF list(1-5)] exclusive_tree_set_list [OF n] by blast
    next
      case (atom tok)
      then show ?thesis
        using exclusive_tree_val_assign [OF n] by simp
    qed
  qed
next
  case (dict cur g)
  show ?case
  proof (intro allI impI)
    fix v g'
    assume c: "exclusive_tree cur" and r: "read_dict_loop cur g = Inr (v, g')"
    from r show "exclusive_tree v"
    proof (cases rule: read_dict_loop_InrE)
      case (last_entry k g1 colon g2 w g3 comma)
      have "exclusive_tree w"
        using dict(1) [OF last_entry(1-4)] last_entry(5) by blast
      then show ?thesis
        using last_entry(8) exclusive_tree_key_store [OF c] by simp
    next
      case (entry k g1 colon g2 w g3 comma g4)
      have "exclusive_tree w"
        using dict(1) [OF entry(1-4)] entry(5) by blast
      then have "exclusive_tree (key_store (key_slot cur (key_of k)) (key_of k) w)"
        using exclusive_tree_key_store [OF c] by simp
      then show ?thesis
        using dict(2) [OF entry(1-8)] entry(9) by blast
    qed
  qed
next
  case (list cur i g)
  show ?case
  proof (intro allI impI)
    fix v g'
    assume c: "exclusive_tree cur" and r: "read_list_loop cur i g = Inr (v, g')"
    from r show "exclusive_tree v"
    proof (cases rule: read_list_loop_InrE)
      case (last_element w g3 comma)
      have "exclusive_tree w"
        using list(1) last_element(1) by blast
      then show ?thesis
        using last_element(4) exclusive_tree_idx_store [OF c] by simp
    next
      case (element w g3 comma g4)
      have "exclusive_tree w"
        using list(1) element(1) by blast
      then have "exclusive_tree (idx_store (idx_slot cur i) i w)"
        using exclusive_tree_idx_store [OF c] by simp
      then show ?thesis
        using list(2) [OF element(1-4)] element(5) by blast
    qed
  qed
qed

lemma built_exclusive_tree: "built v \<Longrightarrow> exclusive_tree v"
  by (induction rule: built.induct)
     (simp_all add: exclusive_tree_new exclusive_tree_reset exclusive_tree_set_dict
        exclusive_tree_set_list exclusive_tree_val_assign exclusive_tree_key_slot
        exclusive_tree_key_store exclusive_tree_idx_slot exclusive_tree_idx_store
        read_exclusive_tree(1))

text \<open>
  Claim C2. Every node that can be reached, built by the caller or returned by the
  parser, holds the content of one variant only, and so do all its descendants: never both flags, entries only in Object mode, elements only
  in Array mode. A mutating key access on a node that is not an Object leaves no
  elements and no text behind, and a mutating index access on a node that is not an
  Array leaves no entries and no text behind.
\<close>

theorem built_node_holds_one_variant:
  "built v \<Longrightarrow>
     exclusive_tree v
     \<and> \<not> (dict_fld v \<noteq> [] \<and> list_fld v \<noteq> [])
     \<and> is_dict_fld (key_slot v k) \<and> \<not> is_list_fld (key_slot v k)
     \<and> (\<not> is_dict_fld v \<longrightarrow> list_fld (key_slot v k) = [] \<and> val_fld (key_slot v k) = [])
     \<and> is_list_fld (idx_slot v i) \<and> \<not> is_dict_fld (idx_slot v i)
     \<and> (\<not> is_list_fld v \<longrightarrow> dict_fld (idx_slot v i) = [] \<and> val_fld (idx_slot v i) = [])"
proof -
  assume b: "built v"
  have t: "exclusive_tree v"
    using b by (rule built_exclusive_tree)
  then have e: "exclusive v"
    using exclusive_tree_unfold [of v] by simp
  have k: "exclusive (key_slot v k)"
    using exclusive_tree_key_slot [OF t, of k] exclusive_tree_unfold [of "key_slot v k"]
    by simp
  have i: "exclusive (idx_slot v i)"
    using exclusive_tree_idx_slot [OF t, of i] exclusive_tree_unfold [of "idx_slot v i"]
    by simp
  have "\<not> is_dict_fld v \<longrightarrow> list_fld (key_slot v k) = [] \<and> val_fld (key_slot v k) = []"
    by (simp add: key_slot_def key_slot_in_def set_dict_def reset_def)
  moreover
  have "\<not> is_list_fld v \<longrightarrow> dict_fld (idx_slot v i) = [] \<and> val_fld (idx_slot v i) = []"
    by (simp add: idx_slot_def Let_def set_list_def reset_def)
  ultimately show ?thesis
    using t e k i key_slot_is_dict [of v k] idx_slot_is_list [of v i]
    by (auto simp: exclusive_def)
qed

theorem built_node_holds_one_variant_witness:
  "built (key_store (key_slot new_Val ''a'') ''a'' new_Val)
   \<and> dict_fld (key_store (key_slot new_Val ''a'') ''a'' new_Val) = [(''a'', new_Val)]
   \<and> dict_fld (idx_slot (key_store (key_slot new_Val ''a'') ''a'' new_Val) 0) = []
   \<and> is_list_fld (idx_slot (key_store (key_slot new_Val ''a'') ''a'' new_Val) 0)"
proof -
  have b: "built (key_store (key_slot new_Val ''a'') ''a'' new_Val)"
    by (intro built_key_store built_new)
  have d: "dict_fld (key_store (key_slot new_Val ''a'') ''a'' new_Val) = [(''a'', new_Val)]"
    by (simp add: key_store_def key_slot_def key_slot_in_def set_dict_def reset_def new_Val_def)
  have "\<not> is_list_fld (key_store (key_slot new_Val ''a'') ''a'' new_Val)"
    by (simp add: key_store_def key_slot_def key_slot_in_def set_dict_def reset_def new_Val_def)
  then show ?thesis
    using b d built_node_holds_one_variant [OF b, of "''a''" 0] by simp
qed

section \<open>Trees that can be built\<close>

lemma built_dict:
  "sorted_wrt (<) (map fst d) \<Longrightarrow> \<forall>x\<in>set d. built (snd x) \<Longrightarrow> built (Val d True [] False [])"
proof (induction d rule: rev_induct)
  case Nil
  have "built (set_dict new_Val)"
    by (intro built_set_dict built_new)
  then show ?case
    by (simp add: set_dict_new)
next
  case (snoc kv d)
  have lt: "\<forall>x\<in>set d. fst x < fst kv" and s: "sorted_wrt (<) (map fst d)"
    using snoc.prems(1) by (auto simp: sorted_wrt_append)
  have b: "built (Val d True [] False [])"
    using snoc.IH [OF s] snoc.prems(2) by simp
  have "key_store (key_slot (Val d True [] False []) (fst kv)) (fst kv) (snd kv)
          = Val (d @ [kv]) True [] False []"
    using map_put_append [OF lt, of "snd kv"]
    by (simp add: key_store_def key_slot_def key_slot_in_def set_dict_def map_put_twice)
  moreover have "built (key_store (key_slot (Val d True [] False []) (fst kv)) (fst kv) (snd kv))"
    using b snoc.prems(2) by (intro built_key_store) simp_all
  ultimately show ?case by simp
qed

lemma built_list:
  "\<forall>x\<in>set l. built x \<Longrightarrow> built (Val [] False l True [])"
proof (induction l rule: rev_induct)
  case Nil
  have "built (set_list new_Val)"
    by (intro built_set_list built_new)
  then show ?case
    by (simp add: set_list_new)
next
  case (snoc v l)
  have b: "built (Val [] False l True [])"
    using snoc by simp
  have "idx_store (idx_slot (Val [] False l True []) (length l)) (length l) v
          = Val [] False (l @ [v]) True []"
    using idx_store_append [of "Val [] False l True []" "length l" v] by simp
  moreover have "built (idx_store (idx_slot (Val [] False l True []) (length l)) (length l) v)"
    using b snoc.prems by (intro built_idx_store) simp_all
  ultimately show ?case by simp
qed

lemma plain_built: "plain t \<Longrightarrow> built t"
proof (induction t)
  case (Val d di l li s)
  show ?case
  proof (cases di)
    case True
    then have f: "\<not> li" "l = []" "s = []" "sorted_wrt (<) (map fst d)"
        "list_all plain (map snd d)"
      using Val.prems by simp_all
    have "\<forall>x\<in>set d. built (snd x)"
    proof
      fix a assume a: "a \<in> set d"
      have "snd a \<in> Basic_BNFs.snds a"
        by (cases a) simp
      moreover have "plain (snd a)"
        using f(5) a by (auto simp: list_all_iff)
      ultimately show "built (snd a)"
        using Val.IH(1) [OF a] by blast
    qed
    then show ?thesis
      using built_dict [OF f(4)] True f(1-3) by simp
  next
    case nd: False
    show ?thesis
    proof (cases li)
      case True
      then have f: "d = []" "s = []" "list_all plain l"
        using Val.prems nd by simp_all
      have "\<forall>x\<in>set l. built x"
        using f(3) Val.IH(2) by (auto simp: list_all_iff)
      then show ?thesis
        using built_list True nd f(1,2) by simp
    next
      case False
      have "built (val_assign new_Val s)"
        by (intro built_val built_new)
      then show ?thesis
        using Val.prems nd False by (simp add: val_assign_def new_Val_def)
    qed
  qed
qed

lemma write_stripped_loops:
  assumes "\<And>kv ind. kv \<in> set d \<Longrightarrow> write_val (stripped (snd kv)) ind = write_val (snd kv) ind"
  shows "write_dict_loop (map (\<lambda>kv. (fst kv, stripped (snd kv))) d) ip b = write_dict_loop d ip b"
  using assms
proof (induction d arbitrary: b)
  case Nil
  show ?case by simp
next
  case (Cons kv d)
  obtain k v where kv: "kv = (k, v)" by (cases kv)
  have "write_val (stripped v) ip = write_val v ip"
    using Cons.prems [of kv ip] kv by simp
  moreover have "write_dict_loop (map (\<lambda>kv. (fst kv, stripped (snd kv))) d) ip True
                   = write_dict_loop d ip True"
    using Cons.prems by (intro Cons.IH) simp
  ultimately show ?case
    using kv by simp
qed

lemma write_stripped_elements:
  assumes "\<And>v ind. v \<in> set l \<Longrightarrow> write_val (stripped v) ind = write_val v ind"
  shows "write_list_loop (map stripped l) ip b = write_list_loop l ip b"
  using assms by (induction l arbitrary: b) simp_all

lemma write_stripped: "write_val (stripped t) indent = write_val t indent"
proof (induction t arbitrary: indent)
  case (Val d di l li s)
  have d: "write_val (stripped (snd kv)) ind = write_val (snd kv) ind" if "kv \<in> set d"
    for kv ind
  proof -
    have "snd kv \<in> Basic_BNFs.snds kv"
      by (cases kv) simp
    then show ?thesis
      using Val.IH(1) [OF that] by blast
  qed
  have l: "write_val (stripped v) ind = write_val v ind" if "v \<in> set l" for v ind
    using Val.IH(2) [OF that] .
  show ?case
    using write_stripped_loops [of d, OF d] write_stripped_elements [of l, OF l]
    by simp
qed

lemma closing_bracket_stripped: "closing_bracket (stripped v) \<longleftrightarrow> closing_bracket v"
  by (cases v) (auto simp: closing_bracket_def)

lemma reinserted_sorted: "reinserted d = d \<Longrightarrow> sorted_wrt (<) (map fst d)"
  using sorted_fold_map_put [of "[]" d] by (simp add: reinserted_def)

lemma writable_plain: "writable t \<Longrightarrow> plain (stripped t)"
proof (induction t)
  case (Val d di l li s)
  show ?case
  proof (cases di)
    case True
    then have f: "sorted_wrt (<) (map fst d)" "list_all writable (map snd d)"
      using Val.prems reinserted_sorted [of d] by simp_all
    have "plain (stripped (snd kv))" if "kv \<in> set d" for kv
    proof -
      have "snd kv \<in> Basic_BNFs.snds kv"
        by (cases kv) simp
      moreover have "writable (snd kv)"
        using f(2) that by (auto simp: list_all_iff)
      ultimately show ?thesis
        using Val.IH(1) [OF that] by blast
    qed
    then have "list_all plain (map snd (map (\<lambda>kv. (fst kv, stripped (snd kv))) d))"
      by (simp add: list_all_iff)
    moreover have "map fst (map (\<lambda>kv. (fst kv, stripped (snd kv))) d) = map fst d"
      by (simp add: comp_def)
    ultimately have "plain (Val (map (\<lambda>kv. (fst kv, stripped (snd kv))) d) True [] False [])"
      using f(1) by (simp only: plain.simps if_True simp_thms)
    then show ?thesis
      using True by simp
  next
    case nd: False
    show ?thesis
    proof (cases li)
      case True
      then have f: "list_all writable l" "case l of [] \<Rightarrow> True | v # vs \<Rightarrow> \<not> closing_bracket v"
        using Val.prems nd by simp_all
      have "list_all plain (map stripped l)"
        using f(1) Val.IH(2) by (auto simp: list_all_iff)
      moreover have "case map stripped l of [] \<Rightarrow> True | v # vs \<Rightarrow> \<not> closing_bracket v"
        using f(2) by (cases l) (simp_all add: closing_bracket_stripped)
      ultimately show ?thesis
        using True nd by simp
    next
      case False
      then show ?thesis
        using Val.prems nd by simp
    qed
  qed
qed

lemma write_not_indented: "\<not> indented t \<Longrightarrow> write_val t indent = write_val t []"
  by (cases t) (auto simp: indented_def)

lemma read_range_written:
  assumes t: "plain t" and ind: "\<forall>c\<in>set indent. is_ws_char c"
  shows "read_range (write_val t indent) out_err = (Some t, out_err)"
proof -
  have "rest (TokenGen_init (write_val t indent)) = [] @ write_val t indent @ []"
    by (simp add: TokenGen_init_def)
  then obtain g' where "read_val (TokenGen_init (write_val t indent)) = Inr (t, g')"
    using plain_reads_back [OF t] ind
    by (elim reads_backD [where indent = indent and w = "[]" and r = "[]"
          and g = "TokenGen_init (write_val t indent)"]) auto
  then show ?thesis
    by (simp add: read_range_def)
qed

section \<open>Tokenizer: where a token stands\<close>

lemma token_stream_unfold:
  "NextNonWS g = (t, g') \<Longrightarrow>
   token_stream g = (if type t = MALFORMED then [t] else t # token_stream g')"
  by (simp add: token_stream.simps [of g])

lemma stream_head: "NextNonWS g = (t, g') \<Longrightarrow> t \<in> set (token_stream g)"
  by (simp add: token_stream_unfold)

lemma stream_step:
  "NextNonWS g = (t, g') \<Longrightarrow> type t \<noteq> MALFORMED \<Longrightarrow>
   set (token_stream g') \<subseteq> set (token_stream g)"
  by (auto simp: token_stream_unfold)

lemma advance_append: "advance (p @ q) x = advance q (advance p x)"
proof (induction p arbitrary: x)
  case Nil
  show ?case by (cases x) simp
next
  case (Cons c p)
  show ?case by (cases x) (simp add: Cons)
qed

lemma advance_eq:
  "advance p (ln, lp) =
     (ln + length (filter (\<lambda>c. c = newline) p),
      if newline \<in> set p then 1 + length (takeWhile (\<lambda>c. c \<noteq> newline) (rev p))
      else lp + length p)"
proof (induction p arbitrary: ln lp)
  case Nil
  show ?case by simp
next
  case (Cons c p)
  have tw: "length (takeWhile (\<lambda>c. c \<noteq> newline) (rev p @ [c]))
              = (if newline \<in> set p then length (takeWhile (\<lambda>c. c \<noteq> newline) (rev p))
                 else if c = newline then length p else length p + 1)"
  proof (cases "newline \<in> set p")
    case True
    then have "takeWhile (\<lambda>c. c \<noteq> newline) (rev p @ [c]) = takeWhile (\<lambda>c. c \<noteq> newline) (rev p)"
      by (intro takeWhile_append1 [of newline]) simp_all
    then show ?thesis
      using True by (simp only: if_True)
  next
    case False
    then have "takeWhile (\<lambda>c. c \<noteq> newline) (rev p @ [c])
                = rev p @ takeWhile (\<lambda>c. c \<noteq> newline) [c]"
      by (intro takeWhile_append2) auto
    then have "length (takeWhile (\<lambda>c. c \<noteq> newline) (rev p @ [c]))
                = length (rev p @ takeWhile (\<lambda>c. c \<noteq> newline) [c])"
      by (rule arg_cong)
    then show ?thesis
      using False by simp
  qed
  show ?case
  proof (cases "c = newline")
    case True
    then show ?thesis
      using tw by (simp add: Cons)
  next
    case False
    then show ?thesis
      using tw by (simp add: Cons)
  qed
qed

lemma advance_start: "advance p (1, 1) = (line_of p, column_of p)"
proof -
  have "length (takeWhile (\<lambda>c. c \<noteq> newline) (rev p)) = length p" if "newline \<notin> set p"
  proof -
    have "takeWhile (\<lambda>c. c \<noteq> newline) (rev p) = rev p"
      using that by (intro takeWhile_eq_all_conv [THEN iffD2]) auto
    then have "length (takeWhile (\<lambda>c. c \<noteq> newline) (rev p)) = length (rev p)"
      by (rule arg_cong)
    then show ?thesis
      by (simp only: length_rev)
  qed
  then show ?thesis
    using advance_eq [of p 1 1] by (simp add: line_of_def column_of_def)
qed

lemma Next_position:
  assumes "Next g = (t, g')"
  shows "line_num t = gen_line_num g \<and> line_pos t = gen_line_pos g
         \<and> (gen_line_num g', gen_line_pos g')
             = advance (span t) (gen_line_num g, gen_line_pos g)"
proof -
  obtain ty n where c: "classify (rest g) = (ty, n)" by (cases "classify (rest g)")
  have "(t, g') = token_at g ty n"
    using assms c by (simp add: Next_classify)
  then show ?thesis
    by (simp add: token_at_def)
qed

lemma NextNonWS_position:
  "NextNonWS g = (t, g') \<Longrightarrow>
   \<exists>w. rest g = w @ span t @ rest g'
     \<and> (line_num t, line_pos t) = advance w (gen_line_num g, gen_line_pos g)
     \<and> (gen_line_num g', gen_line_pos g')
         = advance (w @ span t) (gen_line_num g, gen_line_pos g)"
proof (induction g arbitrary: t g' rule: NextNonWS.induct)
  case (1 g)
  obtain r g1 where n: "Next g = (r, g1)" by (cases "Next g")
  note pos = Next_position [OF n] and sp = Next_split [OF n]
  show ?case
  proof (cases "type r = WHITESPACE")
    case True
    then have "NextNonWS g1 = (t, g')"
      using "1.prems" n by (simp add: NextNonWS.simps [of g])
    then obtain w where w: "rest g1 = w @ span t @ rest g'"
      "(line_num t, line_pos t) = advance w (gen_line_num g1, gen_line_pos g1)"
      "(gen_line_num g', gen_line_pos g')
         = advance (w @ span t) (gen_line_num g1, gen_line_pos g1)"
      using "1.IH" [OF n [symmetric] refl] True by blast
    have "rest g = (span r @ w) @ span t @ rest g'"
      using sp w(1) by simp
    moreover have "(line_num t, line_pos t)
                     = advance (span r @ w) (gen_line_num g, gen_line_pos g)"
      using w(2) pos by (simp add: advance_append)
    moreover have "(gen_line_num g', gen_line_pos g')
                     = advance ((span r @ w) @ span t) (gen_line_num g, gen_line_pos g)"
      using w(3) pos by (simp add: advance_append)
    ultimately show ?thesis
      by blast
  next
    case False
    then have "t = r" "g' = g1"
      using "1.prems" n by (simp_all add: NextNonWS.simps [of g])
    then have "rest g = [] @ span t @ rest g'
       \<and> (line_num t, line_pos t) = advance [] (gen_line_num g, gen_line_pos g)
       \<and> (gen_line_num g', gen_line_pos g')
           = advance ([] @ span t) (gen_line_num g, gen_line_pos g)"
      using pos sp by simp
    then show ?thesis
      by blast
  qed
qed

lemma Next_whitespace_span:
  assumes "Next g = (t, g1)" "type t = WHITESPACE"
  shows "\<forall>c\<in>set (span t). is_ws_char c"
proof -
  obtain ty m where c: "classify (rest g) = (ty, m)" by (cases "classify (rest g)")
  have e: "(t, g1) = token_at g ty m"
    using assms(1) c by (simp add: Next_classify)
  then have "ty = WHITESPACE" "span t = take m (rest g)"
    using assms(2) by (simp_all add: token_at_def)
  moreover from this have "RE_WHITESPACE (rest g) = Some m"
    using c by (auto simp: classify_def split: option.splits)
  then have "m = length (takeWhile is_ws_char (rest g))"
    by (auto simp: RE_WHITESPACE_def Let_def split: if_splits)
  ultimately have "span t = takeWhile is_ws_char (rest g)"
    using takeWhile_eq_take [of is_ws_char "rest g"] by simp
  then show ?thesis
    using set_takeWhileD [of _ is_ws_char "rest g"] by auto
qed

lemma NextNonWS_ws_prefix:
  "NextNonWS g = (t, g1) \<Longrightarrow>
   \<exists>w. rest g = w @ span t @ rest g1 \<and> (\<forall>c\<in>set w. is_ws_char c)"
proof (induction g arbitrary: t g1 rule: NextNonWS.induct)
  case (1 g)
  obtain x g2 where n: "Next g = (x, g2)" by (cases "Next g")
  show ?case
  proof (cases "type x = WHITESPACE")
    case True
    then have "NextNonWS g2 = (t, g1)"
      using "1.prems" n by (simp add: NextNonWS.simps [of g])
    then obtain w where w: "rest g2 = w @ span t @ rest g1" "\<forall>c\<in>set w. is_ws_char c"
      using "1.IH" [OF n [symmetric] refl] True by blast
    have "rest g = (span x @ w) @ span t @ rest g1"
      using Next_split [OF n] w(1) by simp
    moreover have "\<forall>c\<in>set (span x @ w). is_ws_char c"
      using Next_whitespace_span [OF n True] w(2) by auto
    ultimately show ?thesis by blast
  next
    case False
    then have "t = x" "g1 = g2"
      using "1.prems" n by (simp_all add: NextNonWS.simps [of g])
    then have "rest g = [] @ span t @ rest g1 \<and> (\<forall>c\<in>set []. is_ws_char c)"
      using Next_split [OF n] by simp
    then show ?thesis by blast
  qed
qed

lemma Next_malformed_rest:
  assumes "Next g = (t, g1)" "type t = MALFORMED"
  shows "rest g1 = []"
proof -
  obtain ty m where c: "classify (rest g) = (ty, m)" by (cases "classify (rest g)")
  have e: "(t, g1) = token_at g ty m"
    using assms(1) c by (simp add: Next_classify)
  then have "ty = MALFORMED"
    using assms(2) by (simp add: token_at_def)
  then have "m = length (rest g)"
    using c by (auto simp: classify_def split: option.splits)
  then show ?thesis
    using e by (simp add: token_at_def)
qed

lemma NextNonWS_malformed_rest:
  "NextNonWS g = (t, g1) \<Longrightarrow> type t = MALFORMED \<Longrightarrow> rest g1 = []"
  using NextNonWS_is_Next [of g t g1] Next_malformed_rest by blast

section \<open>Tokenizer: another text behind a token\<close>

lemma takeWhile_prefix:
  assumes "length (takeWhile P (a @ b)) \<le> length a"
  shows "takeWhile P a = takeWhile P (a @ b)"
proof (cases "\<forall>x\<in>set a. P x")
  case True
  then have e: "takeWhile P (a @ b) = a @ takeWhile P b"
    by (simp add: takeWhile_append2)
  then have "takeWhile P b = []"
    using assms by simp
  moreover have "takeWhile P a = a"
    using True by (intro takeWhile_eq_all_conv [THEN iffD2]) simp
  ultimately show ?thesis
    using e by simp
next
  case False
  then obtain x where "x \<in> set a" "\<not> P x" by blast
  then show ?thesis
    by (simp add: takeWhile_append1)
qed

lemma takeWhile_Nil_prefix:
  "takeWhile P (a @ b) = [] \<Longrightarrow> takeWhile P a = []"
  by (cases a) (auto split: if_splits)

lemma RE_WHITESPACE_prefix:
  "RE_WHITESPACE (a @ b) = Some n \<Longrightarrow> n \<le> length a \<Longrightarrow> RE_WHITESPACE a = Some n"
  "RE_WHITESPACE (a @ b) = None \<Longrightarrow> RE_WHITESPACE a = None"
  using takeWhile_prefix [of is_ws_char a b] takeWhile_Nil_prefix [of is_ws_char a b]
  by (auto simp: RE_WHITESPACE_def Let_def split: if_splits)

lemma RE_WORD_prefix:
  "RE_WORD (a @ b) = Some n \<Longrightarrow> n \<le> length a \<Longrightarrow> RE_WORD a = Some n"
  "RE_WORD (a @ b) = None \<Longrightarrow> RE_WORD a = None"
  using takeWhile_prefix [of is_word_char a b] takeWhile_Nil_prefix [of is_word_char a b]
  by (auto simp: RE_WORD_def Let_def split: if_splits)

lemma RE_SYMBOL_prefix:
  "RE_SYMBOL (a @ b) = Some n \<Longrightarrow> n \<le> length a \<Longrightarrow> RE_SYMBOL a = Some n"
  "RE_SYMBOL (a @ b) = None \<Longrightarrow> RE_SYMBOL a = None"
  by (cases a; auto simp: RE_SYMBOL_def split: if_splits list.splits)+

lemma string_body_prefix:
  "string_body (a @ b) = Some n \<Longrightarrow> n \<le> length a \<Longrightarrow> string_body a = Some n"
proof (induction a arbitrary: n rule: string_body.induct)
  case 1
  then show ?case
    using string_body_le [of b n] by simp
next
  case (2 c)
  show ?case
  proof (cases b)
    case Nil
    then show ?thesis using 2 by simp
  next
    case (Cons d ds)
    then show ?thesis
      using 2 string_body_le [of ds] string_body_le [of "d # ds"]
      by (auto split: if_splits)
  qed
next
  case (3 c d ds)
  then show ?case
    by (auto split: if_splits)
qed

lemma RE_STRING_prefix:
  "RE_STRING (a @ b) = Some n \<Longrightarrow> n \<le> length a \<Longrightarrow> RE_STRING a = Some n"
  "RE_STRING (a @ b) = None \<Longrightarrow> RE_STRING a = None"
proof -
  show "RE_STRING a = Some n" if "RE_STRING (a @ b) = Some n" "n \<le> length a"
  proof (cases a)
    case Nil
    then show ?thesis
      using that regex_bounds(2) [of "a @ b" n] by simp
  next
    case (Cons c cs)
    then show ?thesis
      using that string_body_prefix [of cs b]
      by (auto simp: RE_STRING_def split: if_splits)
  qed
  show "RE_STRING a = None" if "RE_STRING (a @ b) = None"
  proof (cases "RE_STRING a")
    case None
    then show ?thesis .
  next
    case (Some m)
    then show ?thesis
      using RE_STRING_append [OF Some, of b] that by simp
  qed
qed

lemma classify_prefix:
  assumes "classify (a @ b) = (ty, n)" "ty \<noteq> MALFORMED" "n \<le> length a"
  shows "classify a = (ty, n)"
  using assms RE_WHITESPACE_prefix [of a b] RE_STRING_prefix [of a b] RE_WORD_prefix [of a b]
    RE_SYMBOL_prefix [of a b]
  by (auto simp: classify_def split: option.splits)

lemma Next_cut:
  assumes n: "Next g = (t, g1)" and ty: "type t \<noteq> MALFORMED" and k: "k \<le> length (rest g1)"
  shows "Next (cut k g) = (t, cut k g1)"
proof -
  obtain ty' m where c: "classify (rest g) = (ty', m)" by (cases "classify (rest g)")
  have e: "(t, g1) = token_at g ty' m"
    using n c by (simp add: Next_classify)
  then have t: "type t = ty'" "rest g1 = drop m (rest g)"
    by (simp_all add: token_at_def)
  have m: "m \<le> length (rest g)"
    using classify_bounds [OF c] by simp
  define a where "a = take (length (rest g) - k) (rest g)"
  define b where "b = drop (length (rest g) - k) (rest g)"
  have ab: "rest g = a @ b"
    by (simp add: a_def b_def)
  have la: "length a = length (rest g) - k"
    by (simp add: a_def)
  have ma: "m \<le> length a"
    using k t(2) m la by simp
  have ca: "classify a = (ty', m)"
    using c ty t(1) ma ab by (intro classify_prefix [of a b]) simp_all
  have ra: "rest (cut k g) = a"
    by (simp add: cut_def a_def)
  have tk: "take m a = take m (rest g)"
    using ma ab by simp
  have "length (rest g1) - k = length a - m"
    using t(2) la by simp
  then have "take (length (rest g1) - k) (rest g1) = take (length a - m) (drop m (a @ b))"
    using t(2) ab by simp
  also have "\<dots> = drop m a"
    using ma by simp
  finally have dr: "drop m a = take (length (rest g1) - k) (rest g1)"
    by simp
  have "Next (cut k g) = token_at (cut k g) ty' m"
    using ca ra by (simp add: Next_classify)
  also have "\<dots> = (fst (token_at g ty' m), (snd (token_at g ty' m))\<lparr>rest := drop m a\<rparr>)"
    using ra tk by (simp add: token_at_def cut_def)
  also have "\<dots> = (t, cut k g1)"
    using e [symmetric] dr by (simp add: cut_def)
  finally show ?thesis .
qed

lemma NextNonWS_cut:
  assumes "NextNonWS g = (t, g1)" and "type t \<noteq> MALFORMED" and "k \<le> length (rest g1)"
  shows "NextNonWS (cut k g) = (t, cut k g1)"
  using assms
proof (induction g arbitrary: t g1 rule: NextNonWS.induct)
  case (1 g)
  obtain x g2 where n: "Next g = (x, g2)" by (cases "Next g")
  show ?case
  proof (cases "type x = WHITESPACE")
    case True
    then have nn: "NextNonWS g2 = (t, g1)"
      using "1.prems"(1) n by (simp add: NextNonWS.simps [of g])
    have "length (rest g1) \<le> length (rest g2)"
      using NextNonWS_le [OF nn] by simp
    then have "Next (cut k g) = (x, cut k g2)"
      using True "1.prems"(3) by (intro Next_cut [OF n]) auto
    then have "NextNonWS (cut k g) = NextNonWS (cut k g2)"
      using True by (simp add: NextNonWS.simps [of "cut k g"])
    then show ?thesis
      using "1.IH" [OF n [symmetric] refl _ nn "1.prems"(2,3)] True by simp
  next
    case False
    then have e: "x = t" "g2 = g1"
      using "1.prems"(1) n by (simp_all add: NextNonWS.simps [of g])
    have "Next (cut k g) = (x, cut k g2)"
      using e "1.prems"(2,3) by (intro Next_cut [OF n]) auto
    then show ?thesis
      using False e by (simp add: NextNonWS.simps [of "cut k g"])
  qed
qed

lemma repl_more: "repl k s g = more (cut k g) s"
  by (simp add: repl_def cut_def more_def)

lemma rest_repl: "rest (repl k s g) = take (length (rest g) - k) (rest g) @ s"
  by (simp add: repl_def)

lemma NextNonWS_repl:
  assumes "NextNonWS g = (t, g1)" and "type t \<noteq> MALFORMED" and "k \<le> length (rest g1)"
    and "k < length (rest g1) \<or> s = [] \<or> type t \<noteq> WORD \<or> \<not> is_word_char (hd s)"
  shows "NextNonWS (repl k s g) = (t, repl k s g1)"
proof -
  have "rest (cut k g1) \<noteq> [] \<or> s = [] \<or> type t \<noteq> WORD \<or> \<not> is_word_char (hd s)"
    using assms(4) by (auto simp: cut_def)
  then show ?thesis
    unfolding repl_more
    by (intro NextNonWS_more [OF NextNonWS_cut [OF assms(1-3)] assms(2)])
qed

lemma classify_word_append:
  assumes "classify s = (WORD, n)"
  shows "\<exists>m. classify (s @ r) = (WORD, m)"
proof -
  have w: "RE_WHITESPACE s = None" and st: "RE_STRING s = None" and wd: "RE_WORD s = Some n"
    using assms by (auto simp: classify_def split: option.splits)
  have ne: "s \<noteq> []" and hd: "is_word_char (hd s)"
    using RE_WORD_hd [OF wd] by simp_all
  have "hd s \<noteq> dquote"
    using hd not_word_dquote by auto
  then have 2: "RE_STRING (s @ r) = None"
    using ne by (rule RE_STRING_None_append [rotated])
  have "takeWhile is_word_char (s @ r) \<noteq> []"
    using ne hd by (cases s) auto
  then obtain m where 3: "RE_WORD (s @ r) = Some m"
    by (auto simp: RE_WORD_def Let_def)
  show ?thesis
    using RE_WHITESPACE_None_append [OF w ne, of r] 2 3 by (simp add: classify_def)
qed

lemma Next_more_type:
  assumes n: "Next g = (t, g1)" and ty: "type t \<noteq> MALFORMED" "type t \<noteq> WHITESPACE"
  shows "\<exists>t2 h. Next (more g r) = (t2, h) \<and> type t2 = type t
           \<and> (type t \<noteq> WORD \<longrightarrow> t2 = t \<and> h = more g1 r)"
proof (cases "type t = WORD")
  case False
  then have "Next (more g r) = (t, more g1 r)"
    using ty by (intro Next_more [OF n]) auto
  then show ?thesis by simp
next
  case True
  obtain ty' m where c: "classify (rest g) = (ty', m)" by (cases "classify (rest g)")
  have "(t, g1) = token_at g ty' m"
    using n c by (simp add: Next_classify)
  then have "ty' = WORD"
    using True by (simp add: token_at_def)
  then obtain m' where "classify (rest g @ r) = (WORD, m')"
    using classify_word_append c by blast
  then have "Next (more g r) = token_at (more g r) WORD m'"
    by (simp add: Next_classify)
  then show ?thesis
    using True by (simp add: token_at_def)
qed

lemma NextNonWS_more_type:
  assumes "NextNonWS g = (t, g1)" and "type t \<noteq> MALFORMED"
  shows "\<exists>t2 h. NextNonWS (more g r) = (t2, h) \<and> type t2 = type t
           \<and> (type t \<noteq> WORD \<longrightarrow> t2 = t \<and> h = more g1 r)"
  using assms
proof (induction g arbitrary: t g1 rule: NextNonWS.induct)
  case (1 g)
  obtain x g2 where n: "Next g = (x, g2)" by (cases "Next g")
  show ?case
  proof (cases "type x = WHITESPACE")
    case True
    then have nn: "NextNonWS g2 = (t, g1)"
      using "1.prems"(1) n by (simp add: NextNonWS.simps [of g])
    have "rest g2 \<noteq> []"
      using NextNonWS_rest_nonempty [OF nn] NextNonWS_span_nonempty [OF nn "1.prems"(2)] by simp
    then have "Next (more g r) = (x, more g2 r)"
      using True by (intro Next_more [OF n]) auto
    then have "NextNonWS (more g r) = NextNonWS (more g2 r)"
      using True by (simp add: NextNonWS.simps [of "more g r"])
    then show ?thesis
      using "1.IH" [OF n [symmetric] refl _ nn "1.prems"(2)] True by simp
  next
    case False
    then have e: "x = t" "g2 = g1"
      using "1.prems"(1) n by (simp_all add: NextNonWS.simps [of g])
    obtain t2 h where t2: "Next (more g r) = (t2, h)" "type t2 = type t"
        "type t \<noteq> WORD \<longrightarrow> t2 = t \<and> h = more g1 r"
      using Next_more_type [OF n, of r] e False "1.prems"(2) by auto
    have "NextNonWS (more g r) = (t2, h)"
      using t2(1,2) False e by (simp add: NextNonWS.simps [of "more g r"])
    then show ?thesis
      using t2(2,3) by blast
  qed
qed

lemma NextNonWS_repl_type:
  assumes "NextNonWS g = (t, g1)" and "type t \<noteq> MALFORMED" and "k \<le> length (rest g1)"
  shows "\<exists>t2 h. NextNonWS (repl k s g) = (t2, h) \<and> type t2 = type t
           \<and> (type t \<noteq> WORD \<longrightarrow> t2 = t \<and> h = repl k s g1)"
  unfolding repl_more
  by (rule NextNonWS_more_type [OF NextNonWS_cut [OF assms] assms(2)])

lemma keeps_first_repl:
  assumes "NextNonWS g = (t, g1)" and "type t \<noteq> MALFORMED" and "k \<le> length (rest g1)"
  shows "keeps_first g (repl k s g)"
proof -
  obtain t2 h where t2: "NextNonWS (repl k s g) = (t2, h)" "type t2 = type t"
      "type t \<noteq> WORD \<longrightarrow> t2 = t \<and> h = repl k s g1"
    using NextNonWS_repl_type [OF assms] by blast
  show ?thesis
    unfolding keeps_first_def
  proof (intro allI impI)
    fix x assume x: "is_symbol_char x" "\<not> tok_eq (fst (NextNonWS g)) [x]"
    show "\<not> tok_eq (fst (NextNonWS (repl k s g))) [x]"
    proof (cases "type t = WORD")
      case True
      then have "type t2 \<noteq> SYMBOL"
        using t2(2) by simp
      then show ?thesis
        using NextNonWS_symbol [OF t2(1) _ x(1)] t2(1) by auto
    next
      case False
      then show ?thesis
        using t2 x(2) assms(1) by simp
    qed
  qed
qed

lemma rest_repl_token:
  assumes "NextNonWS g = (t, g1)"
  obtains w where "\<forall>c\<in>set w. is_ws_char c"
    and "\<And>s. rest (repl (length (span t) + length (rest g1)) s g) = w @ s"
proof -
  obtain w where w: "rest g = w @ span t @ rest g1" "\<forall>c\<in>set w. is_ws_char c"
    using NextNonWS_ws_prefix [OF assms] by blast
  have "rest (repl (length (span t) + length (rest g1)) s g) = w @ s" for s
    using w(1) by (simp add: rest_repl)
  then show ?thesis
    using that w(2) by blast
qed

lemma keeps_first_atom:
  assumes "NextNonWS h = (t, h1)" "type t = STRING \<or> type t = WORD"
  shows "keeps_first g h"
  unfolding keeps_first_def using atom_not_symbol [OF assms] assms(1) by simp

lemma NextNonWS_repl_plain:
  assumes "NextNonWS g = (t, g1)" and "type t = STRING \<or> type t = SYMBOL"
    and "k \<le> length (rest g1)"
  shows "NextNonWS (repl k s g) = (t, repl k s g1)"
  using assms(2,3) by (intro NextNonWS_repl [OF assms(1)]) auto

lemma NextNonWS_repl_symbol:
  assumes "NextNonWS g = (t, g1)" and "tok_eq t [c]" "is_symbol_char c"
    and "k \<le> length (rest g1)"
  shows "NextNonWS (repl k s g) = (t, repl k s g1)"
  using NextNonWS_symbol [OF assms(1-3)] assms(4)
  by (intro NextNonWS_repl_plain [OF assms(1)]) simp_all

lemma not_symbol_repl:
  assumes "NextNonWS g = (t, g1)" and "type t \<noteq> MALFORMED" and "k \<le> length (rest g1)"
    and "is_symbol_char x" "\<not> tok_eq t [x]"
  shows "\<not> tok_eq (fst (NextNonWS (repl k s g))) [x]"
  using keeps_first_repl [OF assms(1-3), of s] assms(1,4,5)
  by (simp add: keeps_first_def)

lemma repl_init:
  "repl (length b) s (TokenGen_init (a @ b)) = TokenGen_init (a @ s)"
  by (simp add: repl_def TokenGen_init_def)

section \<open>Parser: another text behind a value\<close>

lemma read_le:
  assumes "read_val g = Inr (v, g')"
  shows "length (rest g') \<le> length (rest g)"
proof -
  obtain x gx where x: "NextNonWS g = (x, gx)" by (cases "NextNonWS g")
  have "length (rest g') \<le> length (rest gx)"
    using read_consumes(1) [of g] assms x by blast
  then show ?thesis
    using NextNonWS_le [OF x] by simp
qed

lemma dict_loop_first:
  assumes "read_dict_loop cur g = Inr (v, g')" "NextNonWS g = (t, g1)"
  shows "type t = STRING \<and> length (rest g') \<le> length (rest g1)"
  using assms(1)
proof (cases rule: read_dict_loop_InrE)
  case (last_entry k g1' colon g2 w g3 comma)
  then show ?thesis
    using assms(2) NextNonWS_le [OF last_entry(3)] read_le [OF last_entry(5)]
      NextNonWS_le [OF last_entry(6)]
    by auto
next
  case (entry k g1' colon g2 w g3 comma g4)
  have "length (rest g') < length (rest g4)"
    using read_consumes(2) entry(9) by blast
  then show ?thesis
    using entry(1,2) assms(2) NextNonWS_le [OF entry(3)] read_le [OF entry(5)]
      NextNonWS_le [OF entry(6)]
    by auto
qed

lemma list_loop_first:
  assumes "read_list_loop cur i g = Inr (v, g')" "NextNonWS g = (t, g1)"
  shows "type t \<noteq> MALFORMED \<and> length (rest g') < length (rest g1)"
  using assms(1)
proof (cases rule: read_list_loop_InrE)
  case (last_element w g3 comma)
  have "type t \<noteq> MALFORMED \<and> length (rest g3) \<le> length (rest g1)"
    using read_consumes(1) [of g] last_element(1) assms(2) by blast
  then show ?thesis
    using NextNonWS_symbol_consumes [OF last_element(2,3)] by simp
next
  case (element w g3 comma g4)
  have "type t \<noteq> MALFORMED \<and> length (rest g3) \<le> length (rest g1)"
    using read_consumes(1) [of g] element(1) assms(2) by blast
  moreover have "length (rest g') < length (rest g4)"
    using read_consumes(3) element(5) by blast
  ultimately show ?thesis
    using NextNonWS_le [OF element(2)] by simp
qed

lemma read_cut:
  "\<forall>v g'. read_val g = Inr (v, g') \<longrightarrow> k \<le> length (rest g') \<longrightarrow>
     read_val (cut k g) = Inr (v, cut k g')"
  "\<forall>v g'. read_dict_loop cur g = Inr (v, g') \<longrightarrow> k \<le> length (rest g') \<longrightarrow>
     read_dict_loop cur (cut k g) = Inr (v, cut k g')"
  "\<forall>v g'. read_list_loop cur i g = Inr (v, g') \<longrightarrow> k \<le> length (rest g') \<longrightarrow>
     read_list_loop cur i (cut k g) = Inr (v, cut k g')"
proof (induction g and cur g and cur i g rule: read_induct)
  case (val g)
  show ?case
  proof (intro allI impI)
    fix v g'
    assume r: "read_val g = Inr (v, g')" and k: "k \<le> length (rest g')"
    from r show "read_val (cut k g) = Inr (v, cut k g')"
    proof (cases rule: read_val_InrE)
      case (empty_dict tok g1 peek)
      have sy: "type tok = SYMBOL" "type peek = SYMBOL"
        using NextNonWS_symbol [OF empty_dict(1,2)] NextNonWS_symbol [OF empty_dict(3,4)]
          symbol_chars by simp_all
      have 1: "NextNonWS (cut k g) = (tok, cut k g1)"
        using sy k NextNonWS_le [OF empty_dict(3)]
        by (intro NextNonWS_cut [OF empty_dict(1)]) simp_all
      have 2: "NextNonWS (cut k g1) = (peek, cut k g')"
        using sy k by (intro NextNonWS_cut [OF empty_dict(3)]) simp_all
      show ?thesis
        using read_val_unfold [OF 1 2] empty_dict(2,4,5) by simp
    next
      case (dict tok g1 peek pg)
      have sy: "type tok = SYMBOL"
        using NextNonWS_symbol [OF dict(1,2)] symbol_chars by simp
      note f = dict_loop_first [OF dict(5,3)]
      have 1: "NextNonWS (cut k g) = (tok, cut k g1)"
        using sy k f NextNonWS_le [OF dict(3)]
        by (intro NextNonWS_cut [OF dict(1)]) simp_all
      have 2: "NextNonWS (cut k g1) = (peek, cut k pg)"
        using k f by (intro NextNonWS_cut [OF dict(3)]) simp_all
      have "read_dict_loop (set_dict new_Val) (cut k g1) = Inr (v, cut k g')"
        using val(1) [OF dict(1-4)] dict(5) k by blast
      then show ?thesis
        using read_val_unfold [OF 1 2] dict(2,4) by simp
    next
      case (empty_list tok g1 peek)
      have sy: "type tok = SYMBOL" "type peek = SYMBOL"
        using NextNonWS_symbol [OF empty_list(1,3)] NextNonWS_symbol [OF empty_list(4,5)]
          symbol_chars by simp_all
      have 1: "NextNonWS (cut k g) = (tok, cut k g1)"
        using sy k NextNonWS_le [OF empty_list(4)]
        by (intro NextNonWS_cut [OF empty_list(1)]) simp_all
      have 2: "NextNonWS (cut k g1) = (peek, cut k g')"
        using sy k by (intro NextNonWS_cut [OF empty_list(4)]) simp_all
      show ?thesis
        using read_val_unfold [OF 1 2] empty_list(2,3,5,6) by simp
    next
      case (list tok g1 peek pg)
      have sy: "type tok = SYMBOL"
        using NextNonWS_symbol [OF list(1,3)] symbol_chars by simp
      note f = list_loop_first [OF list(6,4)]
      have 1: "NextNonWS (cut k g) = (tok, cut k g1)"
        using sy k f NextNonWS_le [OF list(4)]
        by (intro NextNonWS_cut [OF list(1)]) simp_all
      have 2: "NextNonWS (cut k g1) = (peek, cut k pg)"
        using k f by (intro NextNonWS_cut [OF list(4)]) simp_all
      have "read_list_loop (set_list new_Val) 0 (cut k g1) = Inr (v, cut k g')"
        using val(2) [OF list(1-5)] list(6) k by blast
      then show ?thesis
        using read_val_unfold [OF 1 2] list(2,3,5) by simp
    next
      case (atom tok)
      have 1: "NextNonWS (cut k g) = (tok, cut k g')"
        using k by (intro NextNonWS_cut [OF atom(1,4)])
      obtain peek pg where 2: "NextNonWS (cut k g') = (peek, pg)"
        by (cases "NextNonWS (cut k g')")
      show ?thesis
        using read_val_unfold [OF 1 2] atom(2-5) by simp
    qed
  qed
next
  case (dict cur g)
  show ?case
  proof (intro allI impI)
    fix v g'
    assume r: "read_dict_loop cur g = Inr (v, g')" and k: "k \<le> length (rest g')"
    from r show "read_dict_loop cur (cut k g) = Inr (v, cut k g')"
    proof (cases rule: read_dict_loop_InrE)
      case (last_entry k' g1 colon g2 w g3 comma)
      have sy: "type colon = SYMBOL" "type comma = SYMBOL"
        using NextNonWS_symbol [OF last_entry(3,4)] NextNonWS_symbol [OF last_entry(6,7)]
          symbol_chars by simp_all
      have le: "k \<le> length (rest g3)" "k \<le> length (rest g2)" "k \<le> length (rest g1)"
        using k NextNonWS_le [OF last_entry(6)] read_le [OF last_entry(5)]
          NextNonWS_le [OF last_entry(3)]
        by simp_all
      have 1: "NextNonWS (cut k g) = (k', cut k g1)"
        using last_entry(2) le by (intro NextNonWS_cut [OF last_entry(1)]) simp_all
      have 2: "NextNonWS (cut k g1) = (colon, cut k g2)"
        using sy le by (intro NextNonWS_cut [OF last_entry(3)]) simp_all
      have 3: "read_val (cut k g2) = Inr (w, cut k g3)"
        using dict(1) [OF last_entry(1-4)] last_entry(5) le by blast
      have 4: "NextNonWS (cut k g3) = (comma, cut k g')"
        using sy k by (intro NextNonWS_cut [OF last_entry(6)]) simp_all
      show ?thesis
        using read_dict_loop_unfold [OF 1 2, of cur] last_entry(2,4,7,8) 3 4 by simp
    next
      case (entry k' g1 colon g2 w g3 comma g4)
      have sy: "type colon = SYMBOL" "type comma = SYMBOL"
        using NextNonWS_symbol [OF entry(3,4)] NextNonWS_symbol [OF entry(6,8)]
          symbol_chars by simp_all
      have "length (rest g') < length (rest g4)"
        using read_consumes(2) entry(9) by blast
      then have le: "k \<le> length (rest g4)" "k \<le> length (rest g3)" "k \<le> length (rest g2)"
          "k \<le> length (rest g1)"
        using k NextNonWS_le [OF entry(6)] read_le [OF entry(5)] NextNonWS_le [OF entry(3)]
        by simp_all
      have 1: "NextNonWS (cut k g) = (k', cut k g1)"
        using entry(2) le by (intro NextNonWS_cut [OF entry(1)]) simp_all
      have 2: "NextNonWS (cut k g1) = (colon, cut k g2)"
        using sy le by (intro NextNonWS_cut [OF entry(3)]) simp_all
      have 3: "read_val (cut k g2) = Inr (w, cut k g3)"
        using dict(1) [OF entry(1-4)] entry(5) le by blast
      have 4: "NextNonWS (cut k g3) = (comma, cut k g4)"
        using sy le by (intro NextNonWS_cut [OF entry(6)]) simp_all
      have 5: "read_dict_loop (key_store (key_slot cur (key_of k')) (key_of k') w) (cut k g4)
                 = Inr (v, cut k g')"
        using dict(2) [OF entry(1-8)] entry(9) k by blast
      show ?thesis
        using read_dict_loop_unfold [OF 1 2, of cur] entry(2,4,7,8) 3 4 5 by simp
    qed
  qed
next
  case (list cur i g)
  show ?case
  proof (intro allI impI)
    fix v g'
    assume r: "read_list_loop cur i g = Inr (v, g')" and k: "k \<le> length (rest g')"
    from r show "read_list_loop cur i (cut k g) = Inr (v, cut k g')"
    proof (cases rule: read_list_loop_InrE)
      case (last_element w g3 comma)
      have sy: "type comma = SYMBOL"
        using NextNonWS_symbol [OF last_element(2,3)] symbol_chars by simp
      have le: "k \<le> length (rest g3)"
        using k NextNonWS_le [OF last_element(2)] by simp
      have 3: "read_val (cut k g) = Inr (w, cut k g3)"
        using list(1) last_element(1) le by blast
      have 4: "NextNonWS (cut k g3) = (comma, cut k g')"
        using sy k by (intro NextNonWS_cut [OF last_element(2)]) simp_all
      show ?thesis
        using read_list_loop_unfold [of cur i "cut k g"] last_element(3,4) 3 4 by simp
    next
      case (element w g3 comma g4)
      have sy: "type comma = SYMBOL"
        using NextNonWS_symbol [OF element(2,4)] symbol_chars by simp
      have "length (rest g') < length (rest g4)"
        using read_consumes(3) element(5) by blast
      then have le: "k \<le> length (rest g4)" "k \<le> length (rest g3)"
        using k NextNonWS_le [OF element(2)] by simp_all
      have 3: "read_val (cut k g) = Inr (w, cut k g3)"
        using list(1) element(1) le by blast
      have 4: "NextNonWS (cut k g3) = (comma, cut k g4)"
        using sy le by (intro NextNonWS_cut [OF element(2)]) simp_all
      have 5: "read_list_loop (idx_store (idx_slot cur i) i w) (i + 1) (cut k g4)
                 = Inr (v, cut k g')"
        using list(2) [OF element(1-4)] element(5) k by blast
      show ?thesis
        using read_list_loop_unfold [of cur i "cut k g"] element(3,4) 3 4 5 by simp
    qed
  qed
qed

lemma read_repl:
  assumes "read_val g = Inr (v, g')" "k \<le> length (rest g')"
    and "k < length (rest g') \<or> s = [] \<or> \<not> is_word_char (hd s) \<or> \<not> word_ended v"
  shows "read_val (repl k s g) = Inr (v, repl k s g')"
proof -
  have c: "read_val (cut k g) = Inr (v, cut k g')"
    using read_cut(1) assms(1,2) by blast
  have "rest (cut k g') \<noteq> [] \<or> s = [] \<or> \<not> is_word_char (hd s) \<or> \<not> word_ended v"
    using assms(3) by (auto simp: cut_def)
  then show ?thesis
    unfolding repl_more using read_more(1) [of "cut k g" s] c by blast
qed

section \<open>Parser: the tokens that were taken\<close>

lemma ahead_trans: "ahead g h \<Longrightarrow> ahead h k \<Longrightarrow> ahead g k"
  by (induction rule: ahead.induct) (auto intro: ahead.intros)

lemma ahead_token: "NextNonWS g = (t, g1) \<Longrightarrow> type t \<noteq> MALFORMED \<Longrightarrow> ahead g g1"
  by (auto intro: ahead.intros)

lemma ahead_symbol:
  assumes "NextNonWS g = (t, g1)" "tok_eq t [c]" "is_symbol_char c"
  shows "ahead g g1"
  using ahead_token [OF assms(1)] NextNonWS_symbol [OF assms] by simp

lemma ahead_length: "ahead g h \<Longrightarrow> length (rest h) \<le> length (rest g)"
proof (induction rule: ahead.induct)
  case (ahead_refl g)
  show ?case by simp
next
  case (ahead_step g t g1 h)
  then show ?case
    using NextNonWS_le [of g t g1] by simp
qed

lemma ahead_stream: "ahead g h \<Longrightarrow> set (token_stream h) \<subseteq> set (token_stream g)"
proof (induction rule: ahead.induct)
  case (ahead_refl g)
  show ?case by simp
next
  case (ahead_step g t g1 h)
  then show ?case
    using stream_step [of g t g1] by blast
qed

lemma ahead_position:
  "ahead g h \<Longrightarrow>
   \<exists>x. rest g = x @ rest h
     \<and> (gen_line_num h, gen_line_pos h) = advance x (gen_line_num g, gen_line_pos g)"
proof (induction rule: ahead.induct)
  case (ahead_refl g)
  have "rest g = [] @ rest g
     \<and> (gen_line_num g, gen_line_pos g) = advance [] (gen_line_num g, gen_line_pos g)"
    by simp
  then show ?case by blast
next
  case (ahead_step g t g1 h)
  obtain w where w: "rest g = w @ span t @ rest g1"
    "(gen_line_num g1, gen_line_pos g1)
       = advance (w @ span t) (gen_line_num g, gen_line_pos g)"
    using NextNonWS_position [OF ahead_step(1)] by blast
  obtain x where x: "rest g1 = x @ rest h"
    "(gen_line_num h, gen_line_pos h) = advance x (gen_line_num g1, gen_line_pos g1)"
    using ahead_step.IH by blast
  have "rest g = ((w @ span t) @ x) @ rest h"
    using w(1) x(1) by simp
  moreover have "(gen_line_num h, gen_line_pos h)
                   = advance ((w @ span t) @ x) (gen_line_num g, gen_line_pos g)"
    using x(2) w(2) advance_append [of "w @ span t" x] by simp
  ultimately show ?case by blast
qed

lemma read_ahead:
  "\<forall>v g'. read_val g = Inr (v, g') \<longrightarrow> ahead g g'"
  "\<forall>v g'. read_dict_loop cur g = Inr (v, g') \<longrightarrow> ahead g g'"
  "\<forall>v g'. read_list_loop cur i g = Inr (v, g') \<longrightarrow> ahead g g'"
proof (induction g and cur g and cur i g rule: read_induct)
  case (val g)
  show ?case
  proof (intro allI impI)
    fix v g'
    assume r: "read_val g = Inr (v, g')"
    from r show "ahead g g'"
    proof (cases rule: read_val_InrE)
      case (empty_dict tok g1 peek)
      show ?thesis
        by (rule ahead_trans [OF ahead_symbol [OF empty_dict(1,2) symbol_chars(1)]
              ahead_symbol [OF empty_dict(3,4) symbol_chars(2)]])
    next
      case (dict tok g1 peek pg)
      have "ahead g1 g'"
        using val(1) [OF dict(1-4)] dict(5) by blast
      then show ?thesis
        by (rule ahead_trans [OF ahead_symbol [OF dict(1,2) symbol_chars(1)]])
    next
      case (empty_list tok g1 peek)
      show ?thesis
        by (rule ahead_trans [OF ahead_symbol [OF empty_list(1,3) symbol_chars(3)]
              ahead_symbol [OF empty_list(4,5) symbol_chars(4)]])
    next
      case (list tok g1 peek pg)
      have "ahead g1 g'"
        using val(2) [OF list(1-5)] list(6) by blast
      then show ?thesis
        by (rule ahead_trans [OF ahead_symbol [OF list(1,3) symbol_chars(3)]])
    next
      case (atom tok)
      then show ?thesis
        using ahead_token [OF atom(1)] by simp
    qed
  qed
next
  case (dict cur g)
  show ?case
  proof (intro allI impI)
    fix v g'
    assume r: "read_dict_loop cur g = Inr (v, g')"
    from r show "ahead g g'"
    proof (cases rule: read_dict_loop_InrE)
      case (last_entry k g1 colon g2 w g3 comma)
      have 1: "ahead g g1"
        using ahead_token [OF last_entry(1)] last_entry(2) by simp
      have 2: "ahead g1 g2"
        by (rule ahead_symbol [OF last_entry(3,4) symbol_chars(5)])
      have 3: "ahead g2 g3"
        using dict(1) [OF last_entry(1-4)] last_entry(5) by blast
      have 4: "ahead g3 g'"
        by (rule ahead_symbol [OF last_entry(6,7) symbol_chars(2)])
      show ?thesis
        by (rule ahead_trans [OF 1 ahead_trans [OF 2 ahead_trans [OF 3 4]]])
    next
      case (entry k g1 colon g2 w g3 comma g4)
      have 1: "ahead g g1"
        using ahead_token [OF entry(1)] entry(2) by simp
      have 2: "ahead g1 g2"
        by (rule ahead_symbol [OF entry(3,4) symbol_chars(5)])
      have 3: "ahead g2 g3"
        using dict(1) [OF entry(1-4)] entry(5) by blast
      have 4: "ahead g3 g4"
        by (rule ahead_symbol [OF entry(6,8) symbol_chars(6)])
      have 5: "ahead g4 g'"
        using dict(2) [OF entry(1-8)] entry(9) by blast
      show ?thesis
        by (rule ahead_trans [OF 1 ahead_trans [OF 2 ahead_trans [OF 3 ahead_trans [OF 4 5]]]])
    qed
  qed
next
  case (list cur i g)
  show ?case
  proof (intro allI impI)
    fix v g'
    assume r: "read_list_loop cur i g = Inr (v, g')"
    from r show "ahead g g'"
    proof (cases rule: read_list_loop_InrE)
      case (last_element w g3 comma)
      have 3: "ahead g g3"
        using list(1) last_element(1) by blast
      have 4: "ahead g3 g'"
        by (rule ahead_symbol [OF last_element(2,3) symbol_chars(4)])
      show ?thesis
        by (rule ahead_trans [OF 3 4])
    next
      case (element w g3 comma g4)
      have 3: "ahead g g3"
        using list(1) element(1) by blast
      have 4: "ahead g3 g4"
        by (rule ahead_symbol [OF element(2,4) symbol_chars(6)])
      have 5: "ahead g4 g'"
        using list(2) [OF element(1-4)] element(5) by blast
      show ?thesis
        by (rule ahead_trans [OF 3 ahead_trans [OF 4 5]])
    qed
  qed
qed

section \<open>Parser: the token of an error message\<close>

lemma fn_err_eq:
  "fn_err tok expected =
     ''Error: L'' @ dec_string (line_num tok) @ '':'' @ dec_string (line_pos tok)
       @ '': Expected '' @ expected @ '', got: '' @ [dquote] @ take 20 (str tok) @ [dquote] @ ''.''"
  by (simp add: fn_err_def Let_def)

lemma unexpected_simps:
  "unexpected tok ''STRING'' \<longleftrightarrow> type tok \<noteq> STRING"
  "unexpected tok [dquote, CHR '':'', dquote] \<longleftrightarrow> \<not> tok_eq tok '':''"
  "unexpected tok [dquote, CHR '','', dquote] \<longleftrightarrow> \<not> tok_eq tok '',''"
  "unexpected tok ''!MALFORMED'' \<longleftrightarrow> type tok = MALFORMED"
  by (simp_all add: unexpected_def dquote_def tok_eq_span str_def)

lemma pinnedI:
  assumes "unexpected tok expected" "ahead g gt" "NextNonWS gt = (tok, gt1)"
    and "\<And>s. type tok \<noteq> MALFORMED \<Longrightarrow> \<exists>e2. f (repl (length (rest gt1)) s g) = Inl e2"
    and "\<And>s. type tok \<noteq> MALFORMED \<Longrightarrow> keeps_first g (repl (length (rest gt1)) s g)"
    and "\<And>r. bnd r \<Longrightarrow>
           \<exists>v g'. f (repl (length (span tok) + length (rest gt1)) (c @ r) g) = Inr (v, g')
                  \<and> rest g' = r"
    and "\<And>r. bnd r \<Longrightarrow>
           keeps_first g (repl (length (span tok) + length (rest gt1)) (c @ r) g)"
  shows "pinned f g (fn_err tok expected)"
  unfolding pinned_def
  apply (rule exI [of _ tok])
  apply (rule exI [of _ expected])
  apply (rule exI [of _ gt])
  apply (rule exI [of _ gt1])
  apply (intro conjI)
       apply (rule refl)
      apply (rule assms(1))
     apply (rule assms(2))
    apply (rule assms(3))
   apply (intro impI allI conjI)
    apply (erule assms(4))
   apply (erule assms(5))
  apply (rule exI [of _ c])
  apply (intro impI allI conjI)
   apply (erule assms(6))
  apply (erule assms(7))
  done

lemma pinned_lift:
  assumes p: "pinned f1 g1 e" and a: "ahead g g1"
    and z: "z = [] \<or> \<not> is_word_char (hd z)"
    and kf: "\<And>K s. K \<le> length (rest g1) \<Longrightarrow> keeps_first g1 (repl K s g1)
               \<Longrightarrow> keeps_first g (repl K s g)"
    and err: "\<And>K s e'. K \<le> length (rest g1) \<Longrightarrow> keeps_first g1 (repl K s g1)
               \<Longrightarrow> f1 (repl K s g1) = Inl e' \<Longrightarrow> \<exists>e''. f (repl K s g) = Inl e''"
    and ok: "\<And>K s v h r. K \<le> length (rest g1) \<Longrightarrow> keeps_first g1 (repl K s g1)
               \<Longrightarrow> f1 (repl K s g1) = Inr (v, h) \<Longrightarrow> rest h = z @ r
               \<Longrightarrow> \<exists>v' h'. f (repl K s g) = Inr (v', h') \<and> rest h' = r"
  shows "pinned f g e"
proof -
  obtain tok expected gt gt1 c where e: "e = fn_err tok expected" "unexpected tok expected"
      "ahead g1 gt" "NextNonWS gt = (tok, gt1)"
    and p1: "\<And>s. type tok \<noteq> MALFORMED \<Longrightarrow>
               (\<exists>e2. f1 (repl (length (rest gt1)) s g1) = Inl e2)
               \<and> keeps_first g1 (repl (length (rest gt1)) s g1)"
    and p2: "\<And>r. bnd r \<Longrightarrow>
               (\<exists>v g'. f1 (repl (length (span tok) + length (rest gt1)) (c @ r) g1) = Inr (v, g')
                       \<and> rest g' = r)
               \<and> keeps_first g1 (repl (length (span tok) + length (rest gt1)) (c @ r) g1)"
    using p unfolding pinned_def by blast
  have le: "length (span tok) + length (rest gt1) \<le> length (rest g1)"
    using NextNonWS_le [OF e(4)] ahead_length [OF e(3)] by simp
  then have le1: "length (rest gt1) \<le> length (rest g1)"
    by simp
  have bz: "bnd (z @ r)" if "bnd r" for r
    using that z by (cases z) (auto simp: bnd_def)
  show ?thesis
    unfolding e(1)
  proof (rule pinnedI [OF e(2) ahead_trans [OF a e(3)] e(4), where c = "c @ z"])
    fix s assume "type tok \<noteq> MALFORMED"
    then show "\<exists>e2. f (repl (length (rest gt1)) s g) = Inl e2"
      using p1 [of s] err [OF le1] by blast
  next
    fix s assume "type tok \<noteq> MALFORMED"
    then show "keeps_first g (repl (length (rest gt1)) s g)"
      using p1 [of s] kf [OF le1] by blast
  next
    fix r assume r: "bnd r"
    obtain v g' where v: "f1 (repl (length (span tok) + length (rest gt1)) (c @ z @ r) g1)
                            = Inr (v, g')" "rest g' = z @ r"
      and k: "keeps_first g1 (repl (length (span tok) + length (rest gt1)) (c @ z @ r) g1)"
      using p2 [OF bz [OF r]] by blast
    show "\<exists>v g'. f (repl (length (span tok) + length (rest gt1)) ((c @ z) @ r) g) = Inr (v, g')
                  \<and> rest g' = r"
      using ok [OF le k v] by simp
  next
    fix r assume r: "bnd r"
    have "keeps_first g1 (repl (length (span tok) + length (rest gt1)) (c @ z @ r) g1)"
      using p2 [OF bz [OF r]] by blast
    then show "keeps_first g (repl (length (span tok) + length (rest gt1)) ((c @ z) @ r) g)"
      using kf [OF le] by simp
  qed
qed

lemma scalar_0: "reads_back (Val [] False [] False ''0'')"
proof (rule reads_back_scalar)
  have "classify ''0'' = (WORD, 1)"
    by code_simp
  then show "token_text ''0''"
    by (simp add: token_text_def)
qed

lemma read_known_0:
  assumes "rest (g::TokenGen) = w @ ''0'' @ r" "\<forall>c\<in>set w. is_ws_char c" "bnd r"
  obtains g' where "read_val g = Inr (Val [] False [] False ''0'', g')" "rest g' = r"
    "\<exists>t h. NextNonWS g = (t, h) \<and> type t = WORD"
proof -
  have "reads_back (Val [] False [] False ''0'')"
    by (rule scalar_0)
  then obtain g' where g': "read_val g = Inr (Val [] False [] False ''0'', g')" "rest g' = r"
    using assms
    by (elim reads_backD [where indent = "[]" and w = w and r = r and g = g])
       (auto simp: bnd_def)
  have "classify ''0'' = (WORD, 1)"
    by code_simp
  then have "classify (''0'' @ r) = (WORD, length ''0'')"
    using assms(3) by (intro classify_append) (auto simp: bnd_def)
  then have "\<exists>t h. NextNonWS g = (t, h) \<and> type t = WORD"
    using NextNonWS_reads [OF assms(1,2), of WORD] by auto
  then show ?thesis
    using that g' by blast
qed

lemma entry_0:
  assumes "rest (g::TokenGen) = w @ escape [] @ '': 0'' @ [newline] @ ''}'' @ r"
    and "\<forall>c\<in>set w. is_ws_char c" and "bnd r"
  obtains v g' where "read_dict_loop cur g = Inr (v, g')" "rest g' = r"
    "\<exists>t h. NextNonWS g = (t, h) \<and> type t = STRING"
proof -
  have "\<exists>g'. dict_entries g (([], Val [] False [] False ''0'') # []) g' \<and> rest g' = r"
    using assms scalar_0
    by (intro reads_back_entries [where indent = "[]" and w = w]) (auto simp: bnd_def)
  then obtain g' where g': "dict_entries g [([], Val [] False [] False ''0'')] g'" "rest g' = r"
    by blast
  have "\<exists>t h. NextNonWS g = (t, h) \<and> type t = STRING"
    using g'(1) by (cases "NextNonWS g") (auto split: prod.splits)
  then show ?thesis
    using that dict_entries_read [OF g'(1), of cur] g'(2) by blast
qed

lemma closing_token:
  assumes "rest (g::TokenGen) = w @ c # r" "\<forall>c\<in>set w. is_ws_char c" "is_symbol_char c"
  obtains t g1 where "NextNonWS g = (t, g1)" "tok_eq t [c]" "rest g1 = r"
  using NextNonWS_reads_symbol [OF assms] by (auto simp: tok_eq_span)

lemma bnd_symbol: "is_symbol_char c \<Longrightarrow> bnd (c # r)"
  using symbol_char_other [of c] by (simp add: bnd_def)

lemma read_errors_pinned:
  "\<forall>e. read_val g = Inl e \<longrightarrow> pinned read_val g e"
  "\<forall>e. read_dict_loop cur g = Inl e \<longrightarrow> pinned (read_dict_loop cur) g e"
  "\<forall>e. read_list_loop cur i g = Inl e \<longrightarrow> pinned (read_list_loop cur i) g e"
proof (induction g and cur g and cur i g rule: read_induct)
  case (val g)
  obtain tok g1 where t: "NextNonWS g = (tok, g1)" by (cases "NextNonWS g")
  obtain peek pg where p: "NextNonWS g1 = (peek, pg)" by (cases "NextNonWS g1")
  show ?case
  proof (intro allI impI)
    fix e assume r: "read_val g = Inl e"
    consider (brace) "tok_eq tok ''{''" "\<not> tok_eq peek ''}''"
      | (bracket) "\<not> tok_eq tok ''{''" "tok_eq tok ''[''" "\<not> tok_eq peek '']''"
      | (atom) "\<not> tok_eq tok ''{''" "\<not> tok_eq tok ''[''"
      using r read_val_unfold [OF t p] by (auto split: if_splits)
    then show "pinned read_val g e"
    proof cases
      case brace
      have sy: "type tok = SYMBOL"
        using NextNonWS_symbol [OF t brace(1)] symbol_chars by simp
      have "read_dict_loop (set_dict new_Val) g1 = Inl e"
        using r read_val_unfold [OF t p] brace by simp
      then have ih: "pinned (read_dict_loop (set_dict new_Val)) g1 e"
        using val(1) [OF t brace(1) p brace(2)] by simp
      have step: "read_val (repl K s g) = read_dict_loop (set_dict new_Val) (repl K s g1)"
        if K: "K \<le> length (rest g1)" and kf: "keeps_first g1 (repl K s g1)" for K s
      proof -
        have 1: "NextNonWS (repl K s g) = (tok, repl K s g1)"
          by (rule NextNonWS_repl_symbol [OF t brace(1) symbol_chars(1) K])
        obtain peek2 pg2 where 2: "NextNonWS (repl K s g1) = (peek2, pg2)"
          by (cases "NextNonWS (repl K s g1)")
        have "\<not> tok_eq peek2 ''}''"
          using kf p 2 brace(2) symbol_chars(2) by (simp add: keeps_first_def)
        then show ?thesis
          using read_val_unfold [OF 1 2] brace(1) by simp
      qed
      show ?thesis
      proof (rule pinned_lift [OF ih ahead_symbol [OF t brace(1) symbol_chars(1)], of "[]"])
        show "[] = [] \<or> \<not> is_word_char (hd [])" by simp
      next
        fix K s assume "K \<le> length (rest g1)"
        then show "keeps_first g (repl K s g)"
          using sy by (intro keeps_first_repl [OF t]) simp_all
      next
        fix K s e'
        assume "K \<le> length (rest g1)" "keeps_first g1 (repl K s g1)"
          "read_dict_loop (set_dict new_Val) (repl K s g1) = Inl e'"
        then show "\<exists>e''. read_val (repl K s g) = Inl e''"
          using step by simp
      next
        fix K s v h r
        assume "K \<le> length (rest g1)" "keeps_first g1 (repl K s g1)"
          "read_dict_loop (set_dict new_Val) (repl K s g1) = Inr (v, h)" "rest h = [] @ r"
        then show "\<exists>v' h'. read_val (repl K s g) = Inr (v', h') \<and> rest h' = r"
          using step by simp
      qed
    next
      case bracket
      have sy: "type tok = SYMBOL"
        using NextNonWS_symbol [OF t bracket(2)] symbol_chars by simp
      have "read_list_loop (set_list new_Val) 0 g1 = Inl e"
        using r read_val_unfold [OF t p] bracket by simp
      then have ih: "pinned (read_list_loop (set_list new_Val) 0) g1 e"
        using val(2) [OF t bracket(1,2) p bracket(3)] by simp
      have step: "read_val (repl K s g) = read_list_loop (set_list new_Val) 0 (repl K s g1)"
        if K: "K \<le> length (rest g1)" and kf: "keeps_first g1 (repl K s g1)" for K s
      proof -
        have 1: "NextNonWS (repl K s g) = (tok, repl K s g1)"
          by (rule NextNonWS_repl_symbol [OF t bracket(2) symbol_chars(3) K])
        obtain peek2 pg2 where 2: "NextNonWS (repl K s g1) = (peek2, pg2)"
          by (cases "NextNonWS (repl K s g1)")
        have "\<not> tok_eq peek2 '']''"
          using kf p 2 bracket(3) symbol_chars(4) by (simp add: keeps_first_def)
        then show ?thesis
          using read_val_unfold [OF 1 2] bracket(1,2) by simp
      qed
      show ?thesis
      proof (rule pinned_lift [OF ih ahead_symbol [OF t bracket(2) symbol_chars(3)], of "[]"])
        show "[] = [] \<or> \<not> is_word_char (hd [])" by simp
      next
        fix K s assume "K \<le> length (rest g1)"
        then show "keeps_first g (repl K s g)"
          using sy by (intro keeps_first_repl [OF t]) simp_all
      next
        fix K s e'
        assume "K \<le> length (rest g1)" "keeps_first g1 (repl K s g1)"
          "read_list_loop (set_list new_Val) 0 (repl K s g1) = Inl e'"
        then show "\<exists>e''. read_val (repl K s g) = Inl e''"
          using step by simp
      next
        fix K s v h r
        assume "K \<le> length (rest g1)" "keeps_first g1 (repl K s g1)"
          "read_list_loop (set_list new_Val) 0 (repl K s g1) = Inr (v, h)" "rest h = [] @ r"
        then show "\<exists>v' h'. read_val (repl K s g) = Inr (v', h') \<and> rest h' = r"
          using step by simp
      qed
    next
      case atom
      then have e: "e = fn_err tok ''!MALFORMED''" and ty: "type tok = MALFORMED"
        using r read_val_unfold [OF t p] by (simp_all split: if_splits)
      obtain w where w: "\<forall>c\<in>set w. is_ws_char c"
        "\<And>s. rest (repl (length (span tok) + length (rest g1)) s g) = w @ s"
        using rest_repl_token [OF t] by blast
      show ?thesis
        unfolding e
      proof (rule pinnedI [OF _ ahead_refl t, where c = "''0''"])
        show "unexpected tok ''!MALFORMED''"
          using ty by (simp add: unexpected_simps)
      next
        fix s assume "type tok \<noteq> MALFORMED"
        then show "\<exists>e2. read_val (repl (length (rest g1)) s g) = Inl e2"
          using ty by simp
      next
        fix s assume "type tok \<noteq> MALFORMED"
        then show "keeps_first g (repl (length (rest g1)) s g)"
          using ty by simp
      next
        fix r assume b: "bnd r"
        show "\<exists>v g'. read_val (repl (length (span tok) + length (rest g1)) (''0'' @ r) g)
                        = Inr (v, g') \<and> rest g' = r"
          using read_known_0 [OF w(2) [of "''0'' @ r"] w(1) b] by metis
      next
        fix r assume b: "bnd r"
        show "keeps_first g (repl (length (span tok) + length (rest g1)) (''0'' @ r) g)"
          using read_known_0 [OF w(2) [of "''0'' @ r"] w(1) b] keeps_first_atom by metis
      qed
    qed
  qed
next
  case (dict cur g)
  obtain k g1 where k: "NextNonWS g = (k, g1)" by (cases "NextNonWS g")
  obtain colon g2 where c: "NextNonWS g1 = (colon, g2)" by (cases "NextNonWS g1")
  note u = read_dict_loop_unfold [OF k c, of cur]
  note le1 = NextNonWS_le [OF k] and le2 = NextNonWS_le [OF c]
  show ?case
  proof (intro allI impI)
    fix e assume r: "read_dict_loop cur g = Inl e"
    show "pinned (read_dict_loop cur) g e"
    proof (cases "type k = STRING")
      case False
      then have e: "e = fn_err k ''STRING''"
        using r u by simp
      obtain w where w: "\<forall>c\<in>set w. is_ws_char c"
        "\<And>s. rest (repl (length (span k) + length (rest g1)) s g) = w @ s"
        using rest_repl_token [OF k] by blast
      show ?thesis
        unfolding e
      proof (rule pinnedI [OF _ ahead_refl k,
            where c = "escape [] @ '': 0'' @ [newline] @ ''}''"])
        show "unexpected k ''STRING''"
          using False by (simp add: unexpected_simps)
      next
        fix s assume nm: "type k \<noteq> MALFORMED"
        obtain t2 h where t2: "NextNonWS (repl (length (rest g1)) s g) = (t2, h)"
            "type t2 = type k"
          using NextNonWS_repl_type [OF k nm le_refl] by blast
        obtain c2 h2 where c2: "NextNonWS h = (c2, h2)" by (cases "NextNonWS h")
        show "\<exists>e2. read_dict_loop cur (repl (length (rest g1)) s g) = Inl e2"
          using read_dict_loop_unfold [OF t2(1) c2, of cur] t2(2) False by simp
      next
        fix s assume nm: "type k \<noteq> MALFORMED"
        show "keeps_first g (repl (length (rest g1)) s g)"
          by (rule keeps_first_repl [OF k nm le_refl])
      next
        fix r assume b: "bnd r"
        have "rest (repl (length (span k) + length (rest g1))
                      ((escape [] @ '': 0'' @ [newline] @ ''}'') @ r) g)
                = w @ escape [] @ '': 0'' @ [newline] @ ''}'' @ r"
          using w(2) by simp
        from entry_0 [OF this w(1) b, of cur]
        show "\<exists>v g'. read_dict_loop cur (repl (length (span k) + length (rest g1))
                          ((escape [] @ '': 0'' @ [newline] @ ''}'') @ r) g) = Inr (v, g')
                      \<and> rest g' = r"
          by metis
      next
        fix r assume b: "bnd r"
        have "rest (repl (length (span k) + length (rest g1))
                      ((escape [] @ '': 0'' @ [newline] @ ''}'') @ r) g)
                = w @ escape [] @ '': 0'' @ [newline] @ ''}'' @ r"
          using w(2) by simp
        from entry_0 [OF this w(1) b, of cur]
        show "keeps_first g (repl (length (span k) + length (rest g1))
                 ((escape [] @ '': 0'' @ [newline] @ ''}'') @ r) g)"
          using keeps_first_atom by metis
      qed
    next
      case ty: True
      have nmk: "type k \<noteq> MALFORMED"
        using ty by simp
      have ak: "ahead g g1"
        by (rule ahead_token [OF k nmk])
      have K1: "NextNonWS (repl K s g) = (k, repl K s g1)" if "K \<le> length (rest g1)" for K s
        using ty that by (intro NextNonWS_repl_plain [OF k]) simp_all
      have kf: "keeps_first g (repl K s g)" if "K \<le> length (rest g1)" for K s
        by (rule keeps_first_repl [OF k nmk that])
      show ?thesis
      proof (cases "tok_eq colon '':''")
        case False
        then have e: "e = fn_err colon [dquote, CHR '':'', dquote]"
          using r u ty by simp
        obtain w where w: "\<forall>c\<in>set w. is_ws_char c"
          "\<And>s. rest (repl (length (span colon) + length (rest g2)) s g1) = w @ s"
          using rest_repl_token [OF c] by blast
        show ?thesis
          unfolding e
        proof (rule pinnedI [OF _ ak c, where c = "'':0}''"])
          show "unexpected colon [dquote, CHR '':'', dquote]"
            using False by (simp add: unexpected_simps)
        next
          fix s assume nm: "type colon \<noteq> MALFORMED"
          have 1: "NextNonWS (repl (length (rest g2)) s g) = (k, repl (length (rest g2)) s g1)"
            using le2 by (intro K1) simp
          obtain c2 h2 where 2: "NextNonWS (repl (length (rest g2)) s g1) = (c2, h2)"
            by (cases "NextNonWS (repl (length (rest g2)) s g1)")
          have "\<not> tok_eq c2 '':''"
            using not_symbol_repl [OF c nm le_refl symbol_chars(5) False, of s] 2 by simp
          then show "\<exists>e2. read_dict_loop cur (repl (length (rest g2)) s g) = Inl e2"
            using read_dict_loop_unfold [OF 1 2, of cur] ty by simp
        next
          fix s assume "type colon \<noteq> MALFORMED"
          show "keeps_first g (repl (length (rest g2)) s g)"
            using le2 by (intro kf) simp
        next
          fix r assume b: "bnd r"
          define K where "K = length (span colon) + length (rest g2)"
          have 1: "NextNonWS (repl K ('':0}'' @ r) g) = (k, repl K ('':0}'' @ r) g1)"
            using le2 by (intro K1) (simp add: K_def)
          have "rest (repl K ('':0}'' @ r) g1) = w @ CHR '':'' # (''0}'' @ r)"
            using w(2) [of "'':0}'' @ r"] by (simp add: K_def)
          from closing_token [OF this w(1) symbol_chars(5)]
          obtain c2 h2 where 2: "NextNonWS (repl K ('':0}'' @ r) g1) = (c2, h2)"
              "tok_eq c2 '':''" "rest h2 = ''0}'' @ r"
            by blast
          have "rest h2 = [] @ ''0'' @ (CHR ''}'' # r)"
            using 2(3) by simp
          from read_known_0 [OF this _ bnd_symbol [OF symbol_chars(2)]]
          obtain h3 where 3: "read_val h2 = Inr (Val [] False [] False ''0'', h3)"
              "rest h3 = CHR ''}'' # r"
            by auto
          have "rest h3 = [] @ CHR ''}'' # r"
            using 3(2) by simp
          from closing_token [OF this _ symbol_chars(2)]
          obtain c3 h4 where 4: "NextNonWS h3 = (c3, h4)" "tok_eq c3 ''}''" "rest h4 = r"
            by auto
          show "\<exists>v g'. read_dict_loop cur
                  (repl (length (span colon) + length (rest g2)) ('':0}'' @ r) g) = Inr (v, g')
                  \<and> rest g' = r"
            using read_dict_loop_unfold [OF 1 2(1), of cur] ty 2(2) 3(1) 4
            by (simp add: K_def)
        next
          fix r assume "bnd r"
          show "keeps_first g (repl (length (span colon) + length (rest g2)) ('':0}'' @ r) g)"
            using le2 by (intro kf) simp
        qed
      next
        case col: True
        have ac: "ahead g g2"
          by (rule ahead_trans [OF ak ahead_symbol [OF c col symbol_chars(5)]])
        have K2: "NextNonWS (repl K s g1) = (colon, repl K s g2)"
          if "K \<le> length (rest g2)" for K s
          by (rule NextNonWS_repl_symbol [OF c col symbol_chars(5) that])
        show ?thesis
        proof (cases "read_val g2")
          case (Inl e')
          then have "e = e'"
            using r u ty col by simp
          then have ih: "pinned read_val g2 e"
            using dict(1) [OF k ty c col] Inl by simp
          show ?thesis
          proof (rule pinned_lift [OF ih ac, of "''}''"])
            show "''}'' = [] \<or> \<not> is_word_char (hd ''}'')"
              by (simp add: is_word_char_def)
          next
            fix K s assume "K \<le> length (rest g2)"
            then show "keeps_first g (repl K s g)"
              using le2 by (intro kf) simp
          next
            fix K s e'
            assume K: "K \<le> length (rest g2)" and f: "read_val (repl K s g2) = Inl e'"
            have 1: "NextNonWS (repl K s g) = (k, repl K s g1)"
              using K le2 by (intro K1) simp
            show "\<exists>e''. read_dict_loop cur (repl K s g) = Inl e''"
              using read_dict_loop_unfold [OF 1 K2 [OF K], of cur] ty col f by simp
          next
            fix K s v h r
            assume K: "K \<le> length (rest g2)" and f: "read_val (repl K s g2) = Inr (v, h)"
              and h: "rest h = ''}'' @ r"
            have 1: "NextNonWS (repl K s g) = (k, repl K s g1)"
              using K le2 by (intro K1) simp
            have "rest h = [] @ CHR ''}'' # r"
              using h by simp
            from closing_token [OF this _ symbol_chars(2)]
            obtain c3 h4 where 4: "NextNonWS h = (c3, h4)" "tok_eq c3 ''}''" "rest h4 = r"
              by auto
            show "\<exists>v' h'. read_dict_loop cur (repl K s g) = Inr (v', h') \<and> rest h' = r"
              using read_dict_loop_unfold [OF 1 K2 [OF K], of cur] ty col f 4 by simp
          qed
        next
          case (Inr b)
          obtain v g3 where b: "b = (v, g3)" by (cases b)
          obtain comma g4 where m: "NextNonWS g3 = (comma, g4)" by (cases "NextNonWS g3")
          have rv: "read_val g2 = Inr (v, g3)"
            using Inr b by simp
          note le3 = read_le [OF rv] and le4 = NextNonWS_le [OF m]
          have av: "ahead g g3"
            using read_ahead(1) rv ahead_trans [OF ac] by blast
          define cur' where "cur' = key_store (key_slot cur (key_of k)) (key_of k) v"
          have head: "read_dict_loop cur (repl K s g) =
              (case NextNonWS (repl K s g3) of (comma, g4) \<Rightarrow>
                 if tok_eq comma ''}'' then Inr (cur', g4)
                 else if \<not> tok_eq comma '',''
                 then Inl (fn_err comma ([dquote] @ '','' @ [dquote]))
                 else read_dict_loop cur' g4)"
            if K: "K \<le> length (rest g3)"
              and B: "K < length (rest g3) \<or> s = [] \<or> \<not> is_word_char (hd s)" for K s
          proof -
            have 1: "NextNonWS (repl K s g) = (k, repl K s g1)"
              using K le3 le2 by (intro K1) simp
            have 2: "NextNonWS (repl K s g1) = (colon, repl K s g2)"
              using K le3 by (intro K2) simp
            have 3: "read_val (repl K s g2) = Inr (v, repl K s g3)"
              using B by (intro read_repl [OF rv K]) auto
            show ?thesis
              unfolding cur'_def
              using read_dict_loop_unfold [OF 1 2, of cur] ty col 3 by simp
          qed
          show ?thesis
          proof (cases "tok_eq comma '',''")
            case False
            have nb: "\<not> tok_eq comma ''}''"
              using r u ty col rv m by (auto split: if_splits)
            have e: "e = fn_err comma [dquote, CHR '','', dquote]"
              using r u ty col rv m False nb by simp
            obtain w where w: "\<forall>c\<in>set w. is_ws_char c"
              "\<And>s. rest (repl (length (span comma) + length (rest g4)) s g3) = w @ s"
              using rest_repl_token [OF m] by blast
            show ?thesis
              unfolding e
            proof (rule pinnedI [OF _ av m, where c = "''}''"])
              show "unexpected comma [dquote, CHR '','', dquote]"
                using False by (simp add: unexpected_simps)
            next
              fix s assume nm: "type comma \<noteq> MALFORMED"
              have lt: "length (rest g4) < length (rest g3)"
                using NextNonWS_span_nonempty [OF m nm] le4 by (cases "span comma") auto
              obtain c2 h2 where 2: "NextNonWS (repl (length (rest g4)) s g3) = (c2, h2)"
                by (cases "NextNonWS (repl (length (rest g4)) s g3)")
              have "\<not> tok_eq c2 '',''" "\<not> tok_eq c2 ''}''"
                using not_symbol_repl [OF m nm le_refl symbol_chars(6) False, of s]
                  not_symbol_repl [OF m nm le_refl symbol_chars(2) nb, of s] 2 by simp_all
              then show "\<exists>e2. read_dict_loop cur (repl (length (rest g4)) s g) = Inl e2"
                using head [of "length (rest g4)" s] lt 2 by simp
            next
              fix s assume "type comma \<noteq> MALFORMED"
              show "keeps_first g (repl (length (rest g4)) s g)"
                using le4 le3 le2 by (intro kf) simp
            next
              fix r assume "bnd r"
              define K where "K = length (span comma) + length (rest g4)"
              have "rest (repl K (''}'' @ r) g3) = w @ CHR ''}'' # r"
                using w(2) [of "''}'' @ r"] by (simp add: K_def)
              from closing_token [OF this w(1) symbol_chars(2)]
              obtain c3 h4 where 4: "NextNonWS (repl K (''}'' @ r) g3) = (c3, h4)"
                  "tok_eq c3 ''}''" "rest h4 = r"
                by blast
              have "read_dict_loop cur (repl K (''}'' @ r) g) = Inr (cur', h4)"
                using head [of K "''}'' @ r"] le4 4 by (simp add: K_def is_word_char_def)
              then show "\<exists>v g'. read_dict_loop cur
                  (repl (length (span comma) + length (rest g4)) (''}'' @ r) g) = Inr (v, g')
                  \<and> rest g' = r"
                using 4(3) by (simp add: K_def)
            next
              fix r assume "bnd r"
              show "keeps_first g (repl (length (span comma) + length (rest g4)) (''}'' @ r) g)"
                using le4 le3 le2 by (intro kf) simp
            qed
          next
            case True
            have nb: "\<not> tok_eq comma ''}''"
              using True by (simp add: tok_eq_span)
            have lt: "length (rest g4) < length (rest g3)"
              by (rule NextNonWS_symbol_consumes [OF m True])
            have "read_dict_loop cur' g4 = Inl e"
              using r u ty col rv m True nb by (simp add: cur'_def)
            then have ih: "pinned (read_dict_loop cur') g4 e"
              using dict(2) [OF k ty c col rv m nb True] by (simp add: cur'_def)
            have a4: "ahead g g4"
              by (rule ahead_trans [OF av ahead_symbol [OF m True symbol_chars(6)]])
            have step: "read_dict_loop cur (repl K s g) = read_dict_loop cur' (repl K s g4)"
              if K: "K \<le> length (rest g4)" for K s
            proof -
              have "NextNonWS (repl K s g3) = (comma, repl K s g4)"
                by (rule NextNonWS_repl_symbol [OF m True symbol_chars(6) K])
              then show ?thesis
                using head [of K s] K lt True nb by simp
            qed
            show ?thesis
            proof (rule pinned_lift [OF ih a4, of "[]"])
              show "[] = [] \<or> \<not> is_word_char (hd [])" by simp
            next
              fix K s assume "K \<le> length (rest g4)"
              then show "keeps_first g (repl K s g)"
                using le4 le3 le2 by (intro kf) simp
            next
              fix K s e'
              assume "K \<le> length (rest g4)" "read_dict_loop cur' (repl K s g4) = Inl e'"
              then show "\<exists>e''. read_dict_loop cur (repl K s g) = Inl e''"
                using step by simp
            next
              fix K s v h r
              assume "K \<le> length (rest g4)" "read_dict_loop cur' (repl K s g4) = Inr (v, h)"
                "rest h = [] @ r"
              then show "\<exists>v' h'. read_dict_loop cur (repl K s g) = Inr (v', h') \<and> rest h' = r"
                using step by simp
            qed
          qed
        qed
      qed
    qed
  qed
next
  case (list cur i g)
  note u = read_list_loop_unfold [of cur i g]
  show ?case
  proof (intro allI impI)
    fix e assume r: "read_list_loop cur i g = Inl e"
    show "pinned (read_list_loop cur i) g e"
    proof (cases "read_val g")
      case (Inl e')
      then have "e = e'"
        using r u by simp
      then have ih: "pinned read_val g e"
        using list(1) Inl by simp
      show ?thesis
      proof (rule pinned_lift [OF ih ahead_refl, of "'']''"])
        show "'']'' = [] \<or> \<not> is_word_char (hd '']'')"
          by (simp add: is_word_char_def)
      next
        fix K s assume "keeps_first g (repl K s g)"
        then show "keeps_first g (repl K s g)" .
      next
        fix K s e'
        assume "read_val (repl K s g) = Inl e'"
        then show "\<exists>e''. read_list_loop cur i (repl K s g) = Inl e''"
          using read_list_loop_unfold [of cur i "repl K s g"] by simp
      next
        fix K s v h r
        assume f: "read_val (repl K s g) = Inr (v, h)" and h: "rest h = '']'' @ r"
        have "rest h = [] @ CHR '']'' # r"
          using h by simp
        from closing_token [OF this _ symbol_chars(4)]
        obtain c3 h4 where 4: "NextNonWS h = (c3, h4)" "tok_eq c3 '']''" "rest h4 = r"
          by auto
        show "\<exists>v' h'. read_list_loop cur i (repl K s g) = Inr (v', h') \<and> rest h' = r"
          using read_list_loop_unfold [of cur i "repl K s g"] f 4 by simp
      qed
    next
      case (Inr b)
      obtain v g3 where b: "b = (v, g3)" by (cases b)
      obtain comma g4 where m: "NextNonWS g3 = (comma, g4)" by (cases "NextNonWS g3")
      have rv: "read_val g = Inr (v, g3)"
        using Inr b by simp
      note le4 = NextNonWS_le [OF m]
      obtain t0 g0 where t0: "NextNonWS g = (t0, g0)" by (cases "NextNonWS g")
      have f0: "type t0 \<noteq> MALFORMED" "length (rest g3) \<le> length (rest g0)"
        using read_consumes(1) [of g] rv t0 by blast+
      have kf: "keeps_first g (repl K s g)" if "K \<le> length (rest g3)" for K s
        using that f0(2) by (intro keeps_first_repl [OF t0 f0(1)]) simp
      have av: "ahead g g3"
        using read_ahead(1) rv by blast
      define cur' where "cur' = idx_store (idx_slot cur i) i v"
      have head: "read_list_loop cur i (repl K s g) =
          (case NextNonWS (repl K s g3) of (comma, g4) \<Rightarrow>
             if tok_eq comma '']'' then Inr (cur', g4)
             else if \<not> tok_eq comma '',''
             then Inl (fn_err comma ([dquote] @ '','' @ [dquote]))
             else read_list_loop cur' (i + 1) g4)"
        if K: "K \<le> length (rest g3)"
          and B: "K < length (rest g3) \<or> s = [] \<or> \<not> is_word_char (hd s)" for K s
      proof -
        have 3: "read_val (repl K s g) = Inr (v, repl K s g3)"
          using B by (intro read_repl [OF rv K]) auto
        show ?thesis
          unfolding cur'_def
          using read_list_loop_unfold [of cur i "repl K s g"] 3 by simp
      qed
      show ?thesis
      proof (cases "tok_eq comma '',''")
        case False
        have nb: "\<not> tok_eq comma '']''"
          using r u rv m by (auto split: if_splits)
        have e: "e = fn_err comma [dquote, CHR '','', dquote]"
          using r u rv m False nb by simp
        obtain w where w: "\<forall>c\<in>set w. is_ws_char c"
          "\<And>s. rest (repl (length (span comma) + length (rest g4)) s g3) = w @ s"
          using rest_repl_token [OF m] by blast
        show ?thesis
          unfolding e
        proof (rule pinnedI [OF _ av m, where c = "'']''"])
          show "unexpected comma [dquote, CHR '','', dquote]"
            using False by (simp add: unexpected_simps)
        next
          fix s assume nm: "type comma \<noteq> MALFORMED"
          have lt: "length (rest g4) < length (rest g3)"
            using NextNonWS_span_nonempty [OF m nm] le4 by (cases "span comma") auto
          obtain c2 h2 where 2: "NextNonWS (repl (length (rest g4)) s g3) = (c2, h2)"
            by (cases "NextNonWS (repl (length (rest g4)) s g3)")
          have "\<not> tok_eq c2 '',''" "\<not> tok_eq c2 '']''"
            using not_symbol_repl [OF m nm le_refl symbol_chars(6) False, of s]
              not_symbol_repl [OF m nm le_refl symbol_chars(4) nb, of s] 2 by simp_all
          then show "\<exists>e2. read_list_loop cur i (repl (length (rest g4)) s g) = Inl e2"
            using head [of "length (rest g4)" s] lt 2 by simp
        next
          fix s assume "type comma \<noteq> MALFORMED"
          show "keeps_first g (repl (length (rest g4)) s g)"
            using le4 by (intro kf) simp
        next
          fix r assume "bnd r"
          define K where "K = length (span comma) + length (rest g4)"
          have "rest (repl K ('']'' @ r) g3) = w @ CHR '']'' # r"
            using w(2) [of "'']'' @ r"] by (simp add: K_def)
          from closing_token [OF this w(1) symbol_chars(4)]
          obtain c3 h4 where 4: "NextNonWS (repl K ('']'' @ r) g3) = (c3, h4)"
              "tok_eq c3 '']''" "rest h4 = r"
            by blast
          have "read_list_loop cur i (repl K ('']'' @ r) g) = Inr (cur', h4)"
            using head [of K "'']'' @ r"] le4 4 by (simp add: K_def is_word_char_def)
          then show "\<exists>v g'. read_list_loop cur i
              (repl (length (span comma) + length (rest g4)) ('']'' @ r) g) = Inr (v, g')
              \<and> rest g' = r"
            using 4(3) by (simp add: K_def)
        next
          fix r assume "bnd r"
          show "keeps_first g (repl (length (span comma) + length (rest g4)) ('']'' @ r) g)"
            using le4 by (intro kf) simp
        qed
      next
        case True
        have nb: "\<not> tok_eq comma '']''"
          using True by (simp add: tok_eq_span)
        have lt: "length (rest g4) < length (rest g3)"
          by (rule NextNonWS_symbol_consumes [OF m True])
        have "read_list_loop cur' (i + 1) g4 = Inl e"
          using r u rv m True nb by (simp add: cur'_def)
        then have ih: "pinned (read_list_loop cur' (i + 1)) g4 e"
          using list(2) [OF rv m nb True] by (simp add: cur'_def)
        have a4: "ahead g g4"
          by (rule ahead_trans [OF av ahead_symbol [OF m True symbol_chars(6)]])
        have step: "read_list_loop cur i (repl K s g) = read_list_loop cur' (i + 1) (repl K s g4)"
          if K: "K \<le> length (rest g4)" for K s
        proof -
          have "NextNonWS (repl K s g3) = (comma, repl K s g4)"
            by (rule NextNonWS_repl_symbol [OF m True symbol_chars(6) K])
          then show ?thesis
            using head [of K s] K lt True nb by simp
        qed
        show ?thesis
        proof (rule pinned_lift [OF ih a4, of "[]"])
          show "[] = [] \<or> \<not> is_word_char (hd [])" by simp
        next
          fix K s assume "K \<le> length (rest g4)"
          then show "keeps_first g (repl K s g)"
            using lt by (intro kf) simp
        next
          fix K s e'
          assume "K \<le> length (rest g4)" "read_list_loop cur' (i + 1) (repl K s g4) = Inl e'"
          then show "\<exists>e''. read_list_loop cur i (repl K s g) = Inl e''"
            using step by simp
        next
          fix K s v h r
          assume "K \<le> length (rest g4)"
            "read_list_loop cur' (i + 1) (repl K s g4) = Inr (v, h)" "rest h = [] @ r"
          then show "\<exists>v' h'. read_list_loop cur i (repl K s g) = Inr (v', h') \<and> rest h' = r"
            using step by simp
        qed
      qed
    qed
  qed
qed

text \<open>
  Claim C4 as stated fails on the error string of a successful read: \<^verbatim>\<open>read\<close> assigns to
  \<^verbatim>\<open>*out_err\<close> only in \<^verbatim>\<open>fn_err\<close>, so a text that the caller left in the string is still
  there when a tree is returned.
\<close>

theorem read_range_keeps_error_string:
  "read_range ''[1]'' ''old'' = (Some (Val [] False [Val [] False [] False ''1''] True []), ''old'')
   \<and> ''old'' \<noteq> []"
  by code_simp

text \<open>
  Claim C4, amended. Whatever the error string holds before the call, \<^verbatim>\<open>read\<close> returns a
  tree and leaves the string as it was (so empty if it was empty), or returns no tree and
  stores a message that is not empty. The message holds the line and the column of a
  token, what was expected, and the first 20 characters at most of the text of the token.
  The token is the offending one:
  \<^item> it is one of the tokens of the input, and its text stands in the input behind the
    text \<open>before\<close>; the line is one more than the number of line feeds in \<open>before\<close> and
    the column is one more than the number of characters behind the last of them;
  \<^item> it is not what the message says was expected;
  \<^item> nothing in front of it is wrong: some text \<open>c\<close> behind \<open>before\<close> is read without error;
  \<^item> it is wrong itself: if it is \<^verbatim>\<open>MALFORMED\<close> it is all the rest of the input, which
    begins no token; if it is not, then no text that begins with the input up to the
    end of the token is read without error.
\<close>

theorem read_range_tree_or_message:
  "(\<exists>t. read_range input out_err = (Some t, out_err))
   \<or> (\<exists>tok expected before after.
         read_range input out_err =
           (None, ''Error: L'' @ dec_string (line_num tok) @ '':'' @ dec_string (line_pos tok)
                    @ '': Expected '' @ expected @ '', got: '' @ [dquote] @ take 20 (str tok)
                    @ [dquote] @ ''.'')
         \<and> snd (read_range input out_err) \<noteq> []
         \<and> length (take 20 (str tok)) \<le> 20
         \<and> tok \<in> set (token_stream (TokenGen_init input))
         \<and> input = before @ str tok @ after
         \<and> line_num tok = line_of before \<and> line_pos tok = column_of before
         \<and> unexpected tok expected
         \<and> (\<exists>c t. read_range (before @ c) out_err = (Some t, out_err))
         \<and> (type tok = MALFORMED \<longrightarrow> after = [])
         \<and> (type tok \<noteq> MALFORMED \<longrightarrow>
               (\<forall>after'. fst (read_range (before @ str tok @ after') out_err) = None)))"
proof (cases "read_val (TokenGen_init input)")
  case (Inl e)
  define g where "g = TokenGen_init input"
  have "pinned read_val g e"
    using read_errors_pinned(1) Inl by (simp add: g_def)
  then obtain tok expected gt gt1 c where e: "e = fn_err tok expected"
      "unexpected tok expected" "ahead g gt" "NextNonWS gt = (tok, gt1)"
    and p1: "\<And>s. type tok \<noteq> MALFORMED \<Longrightarrow>
               \<exists>e2. read_val (repl (length (rest gt1)) s g) = Inl e2"
    and p2: "\<And>r. bnd r \<Longrightarrow>
               \<exists>v g'. read_val (repl (length (span tok) + length (rest gt1)) (c @ r) g)
                        = Inr (v, g')"
    unfolding pinned_def by blast
  obtain x where x: "rest g = x @ rest gt"
    "(gen_line_num gt, gen_line_pos gt) = advance x (gen_line_num g, gen_line_pos g)"
    using ahead_position [OF e(3)] by blast
  obtain w where w: "rest gt = w @ span tok @ rest gt1"
    "(line_num tok, line_pos tok) = advance w (gen_line_num gt, gen_line_pos gt)"
    using NextNonWS_position [OF e(4)] by blast
  define before where "before = x @ w"
  define after where "after = rest gt1"
  have i: "input = before @ str tok @ after"
    using x(1) w(1) by (simp add: g_def TokenGen_init_def before_def after_def str_def)
  have "(line_num tok, line_pos tok) = advance before (1, 1)"
    using x(2) w(2) advance_append [of x w "(1, 1)"]
    by (simp add: g_def TokenGen_init_def before_def)
  then have pos: "line_num tok = line_of before" "line_pos tok = column_of before"
    by (simp_all only: advance_start prod.inject)
  have mem: "tok \<in> set (token_stream (TokenGen_init input))"
    using ahead_stream [OF e(3)] stream_head [OF e(4)] by (auto simp: g_def)
  have m: "read_range input out_err =
           (None, ''Error: L'' @ dec_string (line_num tok) @ '':'' @ dec_string (line_pos tok)
                    @ '': Expected '' @ expected @ '', got: '' @ [dquote] @ take 20 (str tok)
                    @ [dquote] @ ''.'')"
    using Inl e(1) fn_err_eq [of tok expected] by (simp add: read_range_def)
  have n: "snd (read_range input out_err) \<noteq> []"
    using Inl e(1) fn_err_eq [of tok expected] by (simp add: read_range_def)
  have l: "length (take 20 (str tok)) \<le> 20"
    by simp
  have via: "\<exists>c t. read_range (before @ c) out_err = (Some t, out_err)"
  proof -
    have "repl (length (span tok) + length (rest gt1)) (c @ []) g = TokenGen_init (before @ c)"
      using repl_init [of "str tok @ after" "c" before] i
      by (simp add: g_def str_def after_def)
    then obtain v g' where "read_val (TokenGen_init (before @ c)) = Inr (v, g')"
      using p2 [of "[]"] by (auto simp: bnd_def)
    then have "read_range (before @ c) out_err = (Some v, out_err)"
      by (simp add: read_range_def)
    then show ?thesis by blast
  qed
  have mal: "type tok = MALFORMED \<longrightarrow> after = []"
    using NextNonWS_malformed_rest [OF e(4)] by (simp add: after_def)
  have inev: "type tok \<noteq> MALFORMED \<longrightarrow>
               (\<forall>after'. fst (read_range (before @ str tok @ after') out_err) = None)"
  proof (intro impI allI)
    fix after' assume nm: "type tok \<noteq> MALFORMED"
    have "repl (length (rest gt1)) after' g = TokenGen_init ((before @ str tok) @ after')"
      using repl_init [of after after' "before @ str tok"] i
      by (simp add: g_def after_def)
    then obtain e2 where "read_val (TokenGen_init (before @ str tok @ after')) = Inl e2"
      using p1 [OF nm, of after'] by auto
    then show "fst (read_range (before @ str tok @ after') out_err) = None"
      by (simp add: read_range_def)
  qed
  show ?thesis
    apply (rule disjI2)
    apply (rule exI [of _ tok])
    apply (rule exI [of _ expected])
    apply (rule exI [of _ before])
    apply (rule exI [of _ after])
    apply (intro conjI)
              apply (rule m)
             apply (rule n)
            apply (rule l)
           apply (rule mem)
          apply (rule i)
         apply (rule pos(1))
        apply (rule pos(2))
       apply (rule e(2))
      apply (rule via)
     apply (rule mal)
    apply (rule inev)
    done
next
  case (Inr b)
  then show ?thesis
    by (cases b) (simp add: read_range_def)
qed

theorem read_range_tree_or_message_witness:
  "read_range (''{'' @ [newline] @ [dquote] @ ''a'' @ [dquote] @ '' 1}'') ''old''
     = (None, ''Error: L2:5: Expected '' @ [dquote] @ '':'' @ [dquote] @ '', got: ''
              @ [dquote] @ ''1'' @ [dquote] @ ''.'')
   \<and> read_range ((''{'' @ [newline] @ [dquote] @ ''a'' @ [dquote] @ '' '') @ '':0}'') ''old''
     = (Some (Val [(''a'', Val [] False [] False ''0'')] True [] False []), ''old'')
   \<and> fst (read_range ((''{'' @ [newline] @ [dquote] @ ''a'' @ [dquote] @ '' '') @ ''1''
                       @ '':2}'') ''old'') = None
   \<and> ((\<exists>t. read_range (''{'' @ [newline] @ [dquote] @ ''a'' @ [dquote] @ '' 1}'') ''old'' = (Some t, ''old''))
      \<or> (\<exists>tok expected before after.
            read_range (''{'' @ [newline] @ [dquote] @ ''a'' @ [dquote] @ '' 1}'') ''old'' =
              (None, ''Error: L'' @ dec_string (line_num tok) @ '':'' @ dec_string (line_pos tok)
                       @ '': Expected '' @ expected @ '', got: '' @ [dquote] @ take 20 (str tok)
                       @ [dquote] @ ''.'')
            \<and> snd (read_range (''{'' @ [newline] @ [dquote] @ ''a'' @ [dquote] @ '' 1}'') ''old'') \<noteq> []
            \<and> length (take 20 (str tok)) \<le> 20
            \<and> tok \<in> set (token_stream (TokenGen_init (''{'' @ [newline] @ [dquote] @ ''a'' @ [dquote] @ '' 1}'')))
            \<and> (''{'' @ [newline] @ [dquote] @ ''a'' @ [dquote] @ '' 1}'') = before @ str tok @ after
            \<and> line_num tok = line_of before \<and> line_pos tok = column_of before
            \<and> unexpected tok expected
            \<and> (\<exists>c t. read_range (before @ c) ''old'' = (Some t, ''old''))
            \<and> (type tok = MALFORMED \<longrightarrow> after = [])
            \<and> (type tok \<noteq> MALFORMED \<longrightarrow>
                  (\<forall>after'. fst (read_range (before @ str tok @ after') ''old'') = None))))"
proof -
  have a: "read_range (''{'' @ [newline] @ [dquote] @ ''a'' @ [dquote] @ '' 1}'') ''old''
     = (None, ''Error: L2:5: Expected '' @ [dquote] @ '':'' @ [dquote] @ '', got: ''
              @ [dquote] @ ''1'' @ [dquote] @ ''.'')"
    by code_simp
  have b: "read_range ((''{'' @ [newline] @ [dquote] @ ''a'' @ [dquote] @ '' '') @ '':0}'') ''old''
     = (Some (Val [(''a'', Val [] False [] False ''0'')] True [] False []), ''old'')"
    by code_simp
  have c: "fst (read_range ((''{'' @ [newline] @ [dquote] @ ''a'' @ [dquote] @ '' '') @ ''1''
                       @ '':2}'') ''old'') = None"
    by code_simp
  show ?thesis
    using a b c
      read_range_tree_or_message [of "''{'' @ [newline] @ [dquote] @ ''a'' @ [dquote] @ '' 1}''"
        "''old''"]
    by (intro conjI)
qed

section \<open>Parser: the trees that are read\<close>

lemma token_text_span:
  assumes n: "NextNonWS g = (t, g1)" and ty: "type t \<noteq> MALFORMED"
    and nb: "\<not> tok_eq t ''{''" "\<not> tok_eq t ''[''"
  shows "token_text (span t)"
proof -
  obtain g0 where g0: "Next g0 = (t, g1)"
    using NextNonWS_is_Next [OF n] by blast
  obtain ty' m where c: "classify (rest g0) = (ty', m)" by (cases "classify (rest g0)")
  have "(t, g1) = token_at g0 ty' m"
    using g0 c by (simp add: Next_classify)
  then have t: "type t = ty'" "span t = take m (rest g0)"
    by (simp_all add: token_at_def)
  have m: "m \<le> length (rest g0)"
    using classify_bounds [OF c] by simp
  have "classify (take m (rest g0) @ drop m (rest g0)) = (ty', m)"
    using c by simp
  then have "classify (take m (rest g0)) = (ty', m)"
    using ty t(1) m by (intro classify_prefix [of "take m (rest g0)" "drop m (rest g0)"]) simp_all
  then have "classify (span t) = (type t, length (span t))"
    using t m by simp
  moreover have "type t \<noteq> WHITESPACE"
    by (rule NextNonWS_not_whitespace [OF n])
  ultimately show ?thesis
    using ty nb by (cases "type t") (simp_all add: token_text_def tok_eq_span)
qed

lemma reinserted_of_sorted: "sorted_wrt (<) (map fst d) \<Longrightarrow> reinserted d = d"
  using fold_map_put_sorted [of "[]" d] by (simp add: reinserted_def)

lemma dict_node_writable: "dict_node v \<Longrightarrow> writable v \<and> \<not> closing_bracket v"
  by (cases v) (simp add: dict_node_def reinserted_of_sorted closing_bracket_def)

lemma list_node_writable: "list_node v \<Longrightarrow> writable v \<and> \<not> closing_bracket v"
  by (cases v) (simp add: list_node_def closing_bracket_def)

lemma dict_node_new: "dict_node (set_dict new_Val)"
  by (simp add: set_dict_new dict_node_def)

lemma list_node_new: "list_node (set_list new_Val)"
  by (simp add: set_list_new list_node_def)

lemma dict_node_store:
  assumes "dict_node cur" "writable w"
  shows "dict_node (key_store (key_slot cur k) k w)"
proof -
  have "set_dict cur = cur"
    using assms(1) by (simp add: dict_node_def set_dict_def)
  then have "dict_fld (key_store (key_slot cur k) k w) = map_put k w (dict_fld cur)"
    by (simp add: key_store_def key_slot_def key_slot_in_def map_put_twice)
  moreover have "is_dict_fld (key_store (key_slot cur k) k w)"
    by (simp add: key_store_def key_slot_is_dict)
  ultimately show ?thesis
    using assms sorted_map_put [of "dict_fld cur" k w]
      list_all_map_put [of writable w "dict_fld cur" k]
    by (simp add: dict_node_def)
qed

lemma list_node_store:
  assumes "list_node cur" "i = length (list_fld cur)" "writable w"
    and "list_fld cur = [] \<longrightarrow> \<not> closing_bracket w"
  shows "list_node (idx_store (idx_slot cur i) i w)"
    and "length (list_fld (idx_store (idx_slot cur i) i w)) = i + 1"
    and "list_fld (idx_store (idx_slot cur i) i w) \<noteq> []"
proof -
  have e: "idx_store (idx_slot cur i) i w
        = Val (dict_fld cur) (is_dict_fld cur) (list_fld cur @ [w]) True (val_fld cur)"
    using assms(1,2) by (intro idx_store_append) (simp_all add: list_node_def)
  show "list_node (idx_store (idx_slot cur i) i w)"
    unfolding e using assms(1,3,4)
    by (cases "list_fld cur") (simp_all add: list_node_def)
  show "length (list_fld (idx_store (idx_slot cur i) i w)) = i + 1"
    unfolding e using assms(2) by simp
  show "list_fld (idx_store (idx_slot cur i) i w) \<noteq> []"
    unfolding e by simp
qed

lemma read_writable:
  "\<forall>v g'. read_val g = Inr (v, g') \<longrightarrow>
     writable v \<and> (closing_bracket v \<longrightarrow> tok_eq (fst (NextNonWS g)) '']'')"
  "dict_node cur \<longrightarrow> (\<forall>v g'. read_dict_loop cur g = Inr (v, g') \<longrightarrow> dict_node v)"
  "list_node cur \<longrightarrow> i = length (list_fld cur) \<longrightarrow>
     (list_fld cur = [] \<longrightarrow> \<not> tok_eq (fst (NextNonWS g)) '']'') \<longrightarrow>
     (\<forall>v g'. read_list_loop cur i g = Inr (v, g') \<longrightarrow> list_node v)"
proof (induction g and cur g and cur i g rule: read_induct)
  case (val g)
  show ?case
  proof (intro allI impI)
    fix v g'
    assume r: "read_val g = Inr (v, g')"
    from r show "writable v \<and> (closing_bracket v \<longrightarrow> tok_eq (fst (NextNonWS g)) '']'')"
    proof (cases rule: read_val_InrE)
      case (empty_dict tok g1 peek)
      then show ?thesis
        using dict_node_writable [OF dict_node_new] by simp
    next
      case (dict tok g1 peek pg)
      have "dict_node v"
        using val(1) [OF dict(1-4)] dict(5) dict_node_new by blast
      then show ?thesis
        using dict_node_writable by simp
    next
      case (empty_list tok g1 peek)
      then show ?thesis
        using list_node_writable [OF list_node_new] by simp
    next
      case (list tok g1 peek pg)
      have "list_node v"
        using val(2) [OF list(1-5)] list(4,5,6) list_node_new
        by (simp add: set_list_new)
      then show ?thesis
        using list_node_writable by simp
    next
      case (atom tok)
      have "token_text (span tok)"
        by (rule token_text_span [OF atom(1,4,2,3)])
      then show ?thesis
        using atom(1,5)
        by (simp add: val_assign_def new_Val_def str_def closing_bracket_def tok_eq_span)
    qed
  qed
next
  case (dict cur g)
  show ?case
  proof (intro allI impI)
    fix v g'
    assume c: "dict_node cur" and r: "read_dict_loop cur g = Inr (v, g')"
    from r show "dict_node v"
    proof (cases rule: read_dict_loop_InrE)
      case (last_entry k g1 colon g2 w g3 comma)
      have "writable w"
        using dict(1) [OF last_entry(1-4)] last_entry(5) by blast
      then show ?thesis
        using last_entry(8) dict_node_store [OF c] by simp
    next
      case (entry k g1 colon g2 w g3 comma g4)
      have "writable w"
        using dict(1) [OF entry(1-4)] entry(5) by blast
      then have "dict_node (key_store (key_slot cur (key_of k)) (key_of k) w)"
        using dict_node_store [OF c] by simp
      then show ?thesis
        using dict(2) [OF entry(1-8)] entry(9) by blast
    qed
  qed
next
  case (list cur i g)
  show ?case
  proof (intro allI impI)
    fix v g'
    assume c: "list_node cur" and i: "i = length (list_fld cur)"
      and f: "list_fld cur = [] \<longrightarrow> \<not> tok_eq (fst (NextNonWS g)) '']''"
      and r: "read_list_loop cur i g = Inr (v, g')"
    from r show "list_node v"
    proof (cases rule: read_list_loop_InrE)
      case (last_element w g3 comma)
      have w: "writable w" "closing_bracket w \<longrightarrow> tok_eq (fst (NextNonWS g)) '']''"
        using list(1) last_element(1) by blast+
      then have "list_fld cur = [] \<longrightarrow> \<not> closing_bracket w"
        using f by blast
      then show ?thesis
        using last_element(4) list_node_store(1) [OF c i w(1)] by simp
    next
      case (element w g3 comma g4)
      have w: "writable w" "closing_bracket w \<longrightarrow> tok_eq (fst (NextNonWS g)) '']''"
        using list(1) element(1) by blast+
      then have "list_fld cur = [] \<longrightarrow> \<not> closing_bracket w"
        using f by blast
      note s = list_node_store [OF c i w(1) this]
      show ?thesis
        using list(2) [OF element(1-4)] element(5) s by simp
    qed
  qed
qed

lemma read_range_writable:
  "read_range text out_err = (Some t, e) \<Longrightarrow> writable t"
  using read_writable(1) [of "TokenGen_init text"]
  by (auto simp: read_range_def split: sum.splits)

text \<open>
  Claim C1, amended. Take a tree in which every Scalar holds exactly one token other
  than an opening brace or bracket, no Array has the Scalar \<^verbatim>\<open>]\<close> as its first element,
  and the entries of every Object stand in the order in which putting them one after
  the other into an empty Object leaves them (with the key-ordered map of section 3, in
  increasing key order); take a base indentation made of blanks, or any base indentation
  if the tree is a Scalar or has no children. Then the text that \<^verbatim>\<open>write\<close> produces is
  read without error, the tree that is read is the tree that was written without the
  members that \<^verbatim>\<open>write\<close> does not look at, and writing it with the same base indentation
  gives the same text again. The tree that is read is one that a caller can build.

  These are all the trees of the round trip, up to the text that they are written as:
  for any tree \<open>u\<close> and a base indentation made of blanks, the text of \<open>u\<close> is read as a
  tree that is written as the same text if and only if it is the text of such a tree.
\<close>

theorem write_read_write_same_text:
  "(writable t \<longrightarrow> (\<forall>c\<in>set indent. is_ws_char c) \<or> \<not> indented t \<longrightarrow>
      read_range (write_val t indent) out_err = (Some (stripped t), out_err)
      \<and> write_val (stripped t) indent = write_val t indent
      \<and> built (stripped t))
   \<and> ((\<forall>c\<in>set indent. is_ws_char c) \<longrightarrow>
      ((\<exists>u'. fst (read_range (write_val u indent) out_err) = Some u'
              \<and> write_val u' indent = write_val u indent)
       \<longleftrightarrow> (\<exists>t. writable t \<and> write_val t indent = write_val u indent)))"
proof -
  have main: "read_range (write_val t indent) out_err = (Some (stripped t), out_err)
      \<and> write_val (stripped t) indent = write_val t indent \<and> built (stripped t)"
    if t: "writable t" and ind: "(\<forall>c\<in>set indent. is_ws_char c) \<or> \<not> indented t"
    for t
  proof -
    have p: "plain (stripped t)"
      using t by (rule writable_plain)
    have "read_range (write_val (stripped t) indent) out_err = (Some (stripped t), out_err)"
    proof (cases "\<forall>c\<in>set indent. is_ws_char c")
      case True
      then show ?thesis
        using read_range_written [OF p] by simp
    next
      case False
      then have "\<not> indented t"
        using ind by blast
      then have "write_val t indent = write_val t []"
        by (rule write_not_indented)
      then have "write_val (stripped t) indent = write_val (stripped t) []"
        by (simp add: write_stripped)
      then show ?thesis
        using read_range_written [OF p, of "[]"] by simp
    qed
    then have "read_range (write_val t indent) out_err = (Some (stripped t), out_err)"
      by (simp add: write_stripped)
    then show ?thesis
      using plain_built [OF p] by (simp add: write_stripped)
  qed
  have iff: "(\<exists>u'. fst (read_range (write_val u indent) out_err) = Some u'
              \<and> write_val u' indent = write_val u indent)
       \<longleftrightarrow> (\<exists>t. writable t \<and> write_val t indent = write_val u indent)"
    if ws: "\<forall>c\<in>set indent. is_ws_char c"
  proof
    assume "\<exists>u'. fst (read_range (write_val u indent) out_err) = Some u'
              \<and> write_val u' indent = write_val u indent"
    then obtain u' where u': "fst (read_range (write_val u indent) out_err) = Some u'"
        "write_val u' indent = write_val u indent"
      by blast
    have "writable u'"
      using u'(1) read_range_writable [of "write_val u indent" out_err u']
      by (cases "read_range (write_val u indent) out_err") simp
    then show "\<exists>t. writable t \<and> write_val t indent = write_val u indent"
      using u'(2) by blast
  next
    assume "\<exists>t. writable t \<and> write_val t indent = write_val u indent"
    then obtain t where t: "writable t" "write_val t indent = write_val u indent"
      by blast
    have "read_range (write_val u indent) out_err = (Some (stripped t), out_err)"
      "write_val (stripped t) indent = write_val u indent"
      using main [OF t(1)] ws t(2) by simp_all
    then show "\<exists>u'. fst (read_range (write_val u indent) out_err) = Some u'
              \<and> write_val u' indent = write_val u indent"
      by simp
  qed
  show ?thesis
    using main iff by blast
qed

theorem write_read_write_same_text_witness:
  "writable (Val [(''a'', Val [] False [] False ''}''),
                  (''b'', Val [] False [Val [] False [] False ''1'',
                                        Val [] False [] False '']'',
                                        Val [(''x'', Val [] False [] False (escape ''q''))]
                                          True [Val [] False [] False ''gone''] False ''gone'']
                            True ''gone'')] True [] False ''gone'')
   \<and> list_all is_ws_char ''  ''
   \<and> read_range
        (write_val (Val [(''a'', Val [] False [] False ''}''),
                  (''b'', Val [] False [Val [] False [] False ''1'',
                                        Val [] False [] False '']'',
                                        Val [(''x'', Val [] False [] False (escape ''q''))]
                                          True [Val [] False [] False ''gone''] False ''gone'']
                            True ''gone'')] True [] False ''gone'') ''  '') []
       = (Some (Val [(''a'', Val [] False [] False ''}''),
                  (''b'', Val [] False [Val [] False [] False ''1'',
                                        Val [] False [] False '']'',
                                        Val [(''x'', Val [] False [] False (escape ''q''))]
                                          True [] False []]
                            True [])] True [] False []), [])
   \<and> write_val (Val [(''a'', Val [] False [] False ''}''),
                  (''b'', Val [] False [Val [] False [] False ''1'',
                                        Val [] False [] False '']'',
                                        Val [(''x'', Val [] False [] False (escape ''q''))]
                                          True [] False []]
                            True [])] True [] False []) ''  ''
       = write_val (Val [(''a'', Val [] False [] False ''}''),
                  (''b'', Val [] False [Val [] False [] False ''1'',
                                        Val [] False [] False '']'',
                                        Val [(''x'', Val [] False [] False (escape ''q''))]
                                          True [Val [] False [] False ''gone''] False ''gone'']
                            True ''gone'')] True [] False ''gone'') ''  ''
   \<and> writable (Val [] True [] False [])
   \<and> write_val (Val [] True [] False []) ''  '' = write_val (Val [] False [] False ''{}'') ''  ''
   \<and> (\<exists>u'. fst (read_range (write_val (Val [] False [] False ''{}'') ''  '') []) = Some u'
              \<and> write_val u' ''  '' = write_val (Val [] False [] False ''{}'') ''  '')"
proof -
  have a: "writable (Val [(''a'', Val [] False [] False ''}''),
                  (''b'', Val [] False [Val [] False [] False ''1'',
                                        Val [] False [] False '']'',
                                        Val [(''x'', Val [] False [] False (escape ''q''))]
                                          True [Val [] False [] False ''gone''] False ''gone'']
                            True ''gone'')] True [] False ''gone'')"
    by code_simp
  have b: "\<forall>c\<in>set ''  ''. is_ws_char c"
    by (simp add: is_ws_char_def)
  have c: "list_all is_ws_char ''  ''"
    by (simp add: is_ws_char_def)
  have d: "writable (Val [] True [] False [])
           \<and> write_val (Val [] True [] False []) ''  ''
               = write_val (Val [] False [] False ''{}'') ''  ''"
    by code_simp
  note th = write_read_write_same_text
    [where indent = "''  ''" and out_err = "[]" and u = "Val [] False [] False ''{}''"]
  have e: "\<exists>u'. fst (read_range (write_val (Val [] False [] False ''{}'') ''  '') []) = Some u'
              \<and> write_val u' ''  '' = write_val (Val [] False [] False ''{}'') ''  ''"
    by (rule th [THEN conjunct2, THEN mp, OF b, THEN iffD2, OF exI, OF d])
  show ?thesis
    using a c d e th [THEN conjunct1, THEN mp, OF a, THEN mp, OF disjI1 [OF b]] by simp
qed

end
